theory Spec2Isabelle
  imports Main "HOL-Library.AList" "HOL-Library.Multiset"
begin

section \<open>Python strings\<close>

text \<open>
  A Python \<open>str\<close> is a sequence of Unicode code points. A code point is modelled as a
  natural number and a string as the list of its code points, so that Hangul syllables
  and the Unicode space characters are single elements, as they are in Python.
\<close>

type_synonym codepoint = nat
type_synonym str = "codepoint list"

abbreviation LF :: codepoint where "LF \<equiv> 10"
abbreviation CR :: codepoint where "CR \<equiv> 13"
abbreviation SP :: codepoint where "SP \<equiv> 32"

text \<open>
  The code points that \<open>str.split()\<close> and \<open>str.strip()\<close> without arguments treat as
  whitespace (CPython's table behind \<open>str.isspace\<close>): U+0009..U+000D, U+001C..U+0020,
  U+0085, U+00A0, U+1680, U+2000..U+200A, U+2028, U+2029, U+202F, U+205F, U+3000.
\<close>

definition isspace :: "codepoint \<Rightarrow> bool" where
  "isspace c \<longleftrightarrow>
     (9 \<le> c \<and> c \<le> 13) \<or> (28 \<le> c \<and> c \<le> 32) \<or> c = 133 \<or> c = 160 \<or> c = 5760 \<or>
     (8192 \<le> c \<and> c \<le> 8202) \<or> c = 8232 \<or> c = 8233 \<or> c = 8239 \<or> c = 8287 \<or> c = 12288"

text \<open>\<open>s.strip()\<close>: leading and trailing whitespace removed.\<close>

definition py_strip :: "str \<Rightarrow> str" where
  "py_strip s = rev (dropWhile isspace (rev (dropWhile isspace s)))"

text \<open>\<open>s.rstrip("\n")\<close>: every trailing line feed removed, nothing else.\<close>

definition rstrip_newline :: "str \<Rightarrow> str" where
  "rstrip_newline s = rev (dropWhile (\<lambda>c. c = LF) (rev s))"

text \<open>
  \<open>s.split()\<close>: skip whitespace, take the maximal run without whitespace as the next
  word, repeat until the string is used up. No word is empty.
\<close>

function py_split :: "str \<Rightarrow> str list" where
  "py_split s =
     (let r = dropWhile isspace s
      in if r = [] then []
         else takeWhile (\<lambda>c. \<not> isspace c) r # py_split (dropWhile (\<lambda>c. \<not> isspace c) r))"
  by pat_completeness auto
termination
proof (relation "measure length")
  show "wf (measure length)" by simp
next
  fix s r :: str
  assume r: "r = dropWhile isspace s" and ne: "r \<noteq> []"
  from ne obtain c cs where rc: "r = c # cs" by (cases r) auto
  with r have "\<not> isspace c" by (metis hd_dropWhile list.sel(1) ne)
  with rc have "dropWhile (\<lambda>c. \<not> isspace c) r = dropWhile (\<lambda>c. \<not> isspace c) cs" by simp
  then have "length (dropWhile (\<lambda>c. \<not> isspace c) r) \<le> length cs"
    by (simp add: length_dropWhile_le)
  also have "length cs < length r" using rc by simp
  also have "length r \<le> length s" using r by (simp add: length_dropWhile_le)
  finally show "(dropWhile (\<lambda>c. \<not> isspace c) r, s) \<in> measure length" by simp
qed

declare py_split.simps [simp del]

text \<open>\<open>sep.join(xs)\<close>.\<close>

fun py_join :: "'a list \<Rightarrow> 'a list list \<Rightarrow> 'a list" where
  "py_join sep [] = []"
| "py_join sep [x] = x"
| "py_join sep (x # y # ys) = x @ sep @ py_join sep (y # ys)"

section \<open>Files\<close>

text \<open>
  The file system is a map from paths to nodes. A regular file carries whether it may be
  read, and its bytes as the string they are in UTF-8. A byte that is not part of valid
  UTF-8 stands in that string as a lone surrogate code point (U+D800..U+DFFF), the way
  Python's \<open>surrogateescape\<close> represents it; so the strict decoder, which the code uses,
  fails exactly on a string with a surrogate, and so does the strict encoder.

  Whether a path may be written does not follow from that map (a permission may be
  missing, the file system may be read-only): the world holds, for every path, the
  error with which the operating system refuses to open it for writing, if it does.
  The world also holds the warnings the logger has received, each recorded by the path
  its message names. A path is the string the code passes: the map has a node under
  every spelling of a path that is used. Device errors while reading or writing an
  opened file are outside the model.
\<close>

type_synonym path = string

datatype node = File bool str | Dir

datatype error =
  ValueError | FileNotFoundError | IsADirectoryError | NotADirectoryError | PermissionError
  | UnicodeDecodeError | UnicodeEncodeError

record world =
  files :: "path \<rightharpoonup> node"
  refuses_write :: "path \<Rightarrow> error option"
  warnings :: "path list"

definition is_surrogate :: "codepoint \<Rightarrow> bool" where
  "is_surrogate c \<longleftrightarrow> 55296 \<le> c \<and> c \<le> 57343"

definition isfile :: "world \<Rightarrow> path \<Rightarrow> bool" where
  "isfile w p = (case files w p of Some (File r t) \<Rightarrow> True | Some Dir \<Rightarrow> False | None \<Rightarrow> False)"

definition isdir :: "world \<Rightarrow> path \<Rightarrow> bool" where
  "isdir w p = (case files w p of Some Dir \<Rightarrow> True | Some (File r t) \<Rightarrow> False | None \<Rightarrow> False)"

text \<open>\<open>os.path.join\<close> on POSIX, for two components.\<close>

definition path_join :: "path \<Rightarrow> path \<Rightarrow> path" where
  "path_join a b =
     (if take 1 b = ''/'' then b
      else if a = [] \<or> last a = CHR ''/'' then a @ b
      else a @ ''/'' @ b)"

text \<open>
  Reading in text mode translates \<open>\r\n\<close> and a lone \<open>\r\<close> to \<open>\n\<close> (universal
  newlines, the default of \<open>open\<close>).
\<close>

fun universal_newlines :: "str \<Rightarrow> str" where
  "universal_newlines [] = []"
| "universal_newlines [c] = (if c = CR then [LF] else [c])"
| "universal_newlines (c # d # ds) =
     (if c = CR then (if d = LF then LF # universal_newlines ds
                      else LF # universal_newlines (d # ds))
      else c # universal_newlines (d # ds))"

text \<open>
  \<open>reader.readlines()\<close>: the text cut after every line feed; each line keeps its line
  feed, and a last line without one is kept as it is. The first argument is the line
  read so far.
\<close>

fun readlines_from :: "str \<Rightarrow> str \<Rightarrow> str list" where
  "readlines_from cur [] = (if cur = [] then [] else [cur])"
| "readlines_from cur (c # cs) =
     (if c = LF then (cur @ [c]) # readlines_from [] cs else readlines_from (cur @ [c]) cs)"

definition readlines :: "str \<Rightarrow> str list" where
  "readlines text = readlines_from [] (universal_newlines text)"

text \<open>
  \<open>open(p, "r", encoding="utf-8")\<close> followed by \<open>readlines()\<close>: opening fails on a missing
  path, a directory and an unreadable file; decoding fails on bytes that are not UTF-8.
\<close>

definition open_read :: "world \<Rightarrow> path \<Rightarrow> error + str" where
  "open_read w p =
     (case files w p of
        None \<Rightarrow> Inl FileNotFoundError
      | Some Dir \<Rightarrow> Inl IsADirectoryError
      | Some (File r t) \<Rightarrow>
          if \<not> r then Inl PermissionError
          else if list_ex is_surrogate t then Inl UnicodeDecodeError
          else Inr t)"

text \<open>\<open>os.path.dirname\<close> on POSIX.\<close>

definition dirname :: "path \<Rightarrow> path" where
  "dirname p =
     (let head = rev (dropWhile (\<lambda>c. c \<noteq> CHR ''/'') (rev p))
      in if head \<noteq> [] \<and> list_ex (\<lambda>c. c \<noteq> CHR ''/'') head
         then rev (dropWhile (\<lambda>c. c = CHR ''/'') (rev head))
         else head)"

text \<open>
  \<open>open(p, "w", encoding="utf-8")\<close>: the error raised, if any. The empty path cannot be
  opened. No file can be created where the parent directory is a file or is missing; a
  path without a directory part lies in the current directory and a path directly
  under the root lies in the root, which both exist. A path that ends with a slash, and
  a directory, cannot be opened for writing. For every other path the world says.
\<close>

definition open_write :: "world \<Rightarrow> path \<Rightarrow> error option" where
  "open_write w p =
     (let q = rev (dropWhile (\<lambda>c. c = CHR ''/'') (rev p));
          parent = dirname q;
          below_root = list_ex (\<lambda>c. c \<noteq> CHR ''/'') parent
      in if p = [] then Some FileNotFoundError
         else if q = [] then Some IsADirectoryError
         else if below_root \<and> isfile w parent then Some NotADirectoryError
         else if below_root \<and> \<not> isdir w parent then Some FileNotFoundError
         else if q \<noteq> p then
           (if isfile w q then Some NotADirectoryError else Some IsADirectoryError)
         else if isdir w p then Some IsADirectoryError
         else refuses_write w p)"

section \<open>Vocabulary\<close>

text \<open>
  The vocabulary is an \<open>OrderedDict\<close>: an association list in insertion order, in which
  storing under a key that is present replaces the value where the key stands and
  storing under a new key appends. That is \<open>AList.update\<close>. Ids are Python integers.
\<close>

type_synonym vocabulary = "(str \<times> int) list"

definition vocab_of_lines :: "str list \<Rightarrow> vocabulary" where
  "vocab_of_lines tokens =
     foldl (\<lambda>vocab (index, token). AList.update (rstrip_newline token) (int index) vocab)
       [] (enumerate 0 tokens)"

definition load_vocab :: "world \<Rightarrow> path \<Rightarrow> error + vocabulary" where
  "load_vocab w vocab_file =
     (case open_read w vocab_file of
        Inl e \<Rightarrow> Inl e
      | Inr text \<Rightarrow> Inr (vocab_of_lines (readlines text)))"

section \<open>The tokenizer\<close>

record tokenizer =
  vocab :: vocabulary
  ids_to_tokens :: "(int \<times> str) list"
  unk_token :: str
  sep_token :: str
  pad_token :: str
  cls_token :: str
  mask_token :: str

text \<open>
  The constructor. The base class's constructor stores the five special-token strings;
  the remaining arguments (\<open>do_lower_case\<close>, \<open>do_basic_tokenize\<close>, \<open>never_split\<close>,
  \<open>tokenize_chinese_chars\<close>) are not read by the body and are left out.
\<close>

definition KoCharElectraTokenizer_init ::
  "world \<Rightarrow> path \<Rightarrow> str \<Rightarrow> str \<Rightarrow> str \<Rightarrow> str \<Rightarrow> str \<Rightarrow> error + tokenizer" where
  "KoCharElectraTokenizer_init w vocab_file unk sep pad cls msk =
     (if \<not> isfile w vocab_file then Inl ValueError
      else case load_vocab w vocab_file of
             Inl e \<Rightarrow> Inl e
           | Inr v \<Rightarrow>
               Inr \<lparr>vocab = v,
                    ids_to_tokens = foldl (\<lambda>d (tok, ids). AList.update ids tok d) [] v,
                    unk_token = unk, sep_token = sep, pad_token = pad,
                    cls_token = cls, mask_token = msk\<rparr>)"

definition vocab_size :: "tokenizer \<Rightarrow> nat" where
  "vocab_size tk = length (vocab tk)"

subsection \<open>Segmenting\<close>

text \<open>
  The methods \<open>_tokenize\<close>, \<open>_convert_token_to_id\<close> and \<open>_convert_id_to_token\<close> are
  named here without their leading underscore.
\<close>

definition tokenize :: "str \<Rightarrow> str list" where
  "tokenize text = map (\<lambda>c. [c]) (py_join [SP] (py_split text))"

definition whitespace_tokenize :: "str \<Rightarrow> str list" where
  "whitespace_tokenize text =
     (let text' = py_strip text in if text' = [] then [] else py_split text')"

subsection \<open>Tokens and ids\<close>

text \<open>
  An id as the code handles it: a Python integer, or \<open>None\<close> where \<open>dict.get\<close> found
  neither the token nor the unknown token.
\<close>

type_synonym py_id = "int option"

definition convert_token_to_id :: "tokenizer \<Rightarrow> str \<Rightarrow> py_id" where
  "convert_token_to_id tk token =
     (case map_of (vocab tk) token of
        Some i \<Rightarrow> Some i
      | None \<Rightarrow> map_of (vocab tk) (unk_token tk))"

definition convert_id_to_token :: "tokenizer \<Rightarrow> py_id \<Rightarrow> str" where
  "convert_id_to_token tk index =
     (case index of
        None \<Rightarrow> unk_token tk
      | Some i \<Rightarrow> (case map_of (ids_to_tokens tk) i of Some t \<Rightarrow> t | None \<Rightarrow> unk_token tk))"

text \<open>
  Modelled from the spec: the base class \<open>PreTrainedTokenizer\<close> is not among the sources.
  Its list-level conversions map the two functions above over a sequence (section 4.3 of
  the specification), and the id of a special token is the id the vocabulary gives its
  string (section 3), looked up like any other token.
\<close>

definition convert_tokens_to_ids :: "tokenizer \<Rightarrow> str list \<Rightarrow> py_id list" where
  "convert_tokens_to_ids tk tokens = map (convert_token_to_id tk) tokens"

definition convert_ids_to_tokens :: "tokenizer \<Rightarrow> py_id list \<Rightarrow> str list" where
  "convert_ids_to_tokens tk ids = map (convert_id_to_token tk) ids"

definition cls_token_id :: "tokenizer \<Rightarrow> py_id" where
  "cls_token_id tk = convert_token_to_id tk (cls_token tk)"

definition sep_token_id :: "tokenizer \<Rightarrow> py_id" where
  "sep_token_id tk = convert_token_to_id tk (sep_token tk)"

definition convert_tokens_to_string :: "str list \<Rightarrow> str" where
  "convert_tokens_to_string tokens = py_strip (py_join [] tokens)"

subsection \<open>Assembling sequences\<close>

definition build_inputs_with_special_tokens ::
  "tokenizer \<Rightarrow> py_id list \<Rightarrow> py_id list option \<Rightarrow> py_id list" where
  "build_inputs_with_special_tokens tk token_ids_0 token_ids_1 =
     (case token_ids_1 of
        None \<Rightarrow> [cls_token_id tk] @ token_ids_0 @ [sep_token_id tk]
      | Some ids1 \<Rightarrow>
          (let cls = [cls_token_id tk]; sep = [sep_token_id tk]
           in cls @ token_ids_0 @ sep @ ids1 @ sep))"

definition get_special_tokens_mask ::
  "tokenizer \<Rightarrow> py_id list \<Rightarrow> py_id list option \<Rightarrow> bool \<Rightarrow> error + int list" where
  "get_special_tokens_mask tk token_ids_0 token_ids_1 already_has_special_tokens =
     (if already_has_special_tokens then
        (if token_ids_1 \<noteq> None then Inl ValueError
         else Inr (map (\<lambda>x. if x \<in> set [sep_token_id tk, cls_token_id tk] then 1 else 0)
                     token_ids_0))
      else case token_ids_1 of
             Some ids1 \<Rightarrow>
               Inr ([1] @ replicate (length token_ids_0) 0 @ [1] @
                    replicate (length ids1) 0 @ [1])
           | None \<Rightarrow> Inr ([1] @ replicate (length token_ids_0) 0 @ [1]))"

definition create_token_type_ids_from_sequences ::
  "tokenizer \<Rightarrow> py_id list \<Rightarrow> py_id list option \<Rightarrow> int list" where
  "create_token_type_ids_from_sequences tk token_ids_0 token_ids_1 =
     (let sep = [sep_token_id tk]; cls = [cls_token_id tk]
      in case token_ids_1 of
           None \<Rightarrow> replicate (length (cls @ token_ids_0 @ sep)) 0
         | Some ids1 \<Rightarrow>
             replicate (length (cls @ token_ids_0 @ sep)) 0 @
             replicate (length (ids1 @ sep)) 1)"

subsection \<open>Saving\<close>

text \<open>
  The loop of \<open>save_vocabulary\<close> over the items that are left, with the expected index,
  the text written so far and the warnings logged so far. A warning is logged before
  the token is written; writing a token that the strict encoder refuses raises, and the
  loop ends there.
\<close>

fun write_tokens ::
  "path \<Rightarrow> int \<Rightarrow> str \<Rightarrow> path list \<Rightarrow> (str \<times> int) list \<Rightarrow> error option \<times> str \<times> path list" where
  "write_tokens vocab_file index written warns [] = (None, written, warns)"
| "write_tokens vocab_file index written warns ((token, token_index) # rest) =
     (let warns' = (if index \<noteq> token_index then warns @ [vocab_file] else warns);
          index' = (if index \<noteq> token_index then token_index else index)
      in if list_ex is_surrogate token then (Some UnicodeEncodeError, written, warns')
         else write_tokens vocab_file (index' + 1) (written @ token @ [LF]) warns' rest)"

text \<open>
  The result is the path written, or the error raised, and the world afterwards. When
  the file cannot be opened nothing changes. Otherwise the file is created or truncated
  and, when it is closed, holds what was written, also when a write has raised. An
  existing file keeps its read permission, a new one is readable.
\<close>

definition save_vocabulary :: "tokenizer \<Rightarrow> path \<Rightarrow> world \<Rightarrow> (error + path) \<times> world" where
  "save_vocabulary tk vocab_path w =
     (let vocab_file = (if isdir w vocab_path then path_join vocab_path ''vocab.txt''
                        else vocab_path)
      in case open_write w vocab_file of
           Some e \<Rightarrow> (Inl e, w)
         | None \<Rightarrow>
             (case write_tokens vocab_file 0 [] (warnings w) (sort_key snd (vocab tk)) of
                (err, written, warns) \<Rightarrow>
                  (case err of Some e \<Rightarrow> Inl e | None \<Rightarrow> Inr vocab_file,
                   w\<lparr>files := (files w)(vocab_file \<mapsto>
                        File (case files w vocab_file of Some (File r t) \<Rightarrow> r | _ \<Rightarrow> True)
                          written),
                     warnings := warns\<rparr>)))"

text \<open>
  What \<open>save_vocabulary\<close> leaves behind, read off its result: the path returned, the
  node now at that path and the warnings logged.
\<close>

definition saved_file :: "(error + path) \<times> world \<Rightarrow> error + path \<times> node option \<times> path list" where
  "saved_file res =
     (case res of
        (Inl e, w') \<Rightarrow> Inl e
      | (Inr p, w') \<Rightarrow> Inr (p, files w' p, warnings w'))"

section \<open>Notions of the specification\<close>

text \<open>
  The specification describes the normal form of a text in words: every run of
  whitespace collapsed to a single space, leading and trailing whitespace stripped, and
  nothing else changed. \<open>collapse_runs\<close> is the first half, written independently of
  \<open>split\<close> and \<open>join\<close>: a whitespace character followed by another one is dropped, the
  last whitespace character of a run becomes a space, every other character is kept.
  The normal form of \<open>s\<close> is \<open>collapse_runs (py_strip s)\<close>.
\<close>

fun collapse_runs :: "str \<Rightarrow> str" where
  "collapse_runs [] = []"
| "collapse_runs [c] = (if isspace c then [SP] else [c])"
| "collapse_runs (c # d # cs) =
     (if isspace c \<and> isspace d then collapse_runs (d # cs)
      else (if isspace c then SP else c) # collapse_runs (d # cs))"

text \<open>
  The ids of a vocabulary are contiguous from 0 when, in ascending order, they are
  \<open>0, 1, \<dots>, n - 1\<close>. A vocabulary file in the documented format is newline-terminated:
  it has no carriage return, and it is empty or ends with a line feed.
\<close>

definition ids_contiguous :: "vocabulary \<Rightarrow> bool" where
  "ids_contiguous v \<longleftrightarrow> map snd (sort_key snd v) = map int [0..<length v]"

definition newline_terminated :: "str \<Rightarrow> bool" where
  "newline_terminated s \<longleftrightarrow> CR \<notin> set s \<and> (s = [] \<or> last s = LF)"

text \<open>
  A vocabulary can be encoded when none of its tokens has a surrogate code point. That
  holds for every vocabulary loaded from a file, and may fail for one changed afterwards.
\<close>

definition encodable :: "vocabulary \<Rightarrow> bool" where
  "encodable v \<longleftrightarrow> list_all (\<lambda>kv. \<not> list_ex is_surrogate (fst kv)) v"

section \<open>Example data\<close>

text \<open>
  The default special tokens \<open>[UNK]\<close>, \<open>[SEP]\<close>, \<open>[PAD]\<close>, \<open>[CLS]\<close>, \<open>[MASK]\<close>, and the
  example vocabulary of the specification: the five special tokens, the syllables
  U+AC00 and U+B098, and the space, one per line.
\<close>

definition UNK :: str where "UNK = [91, 85, 78, 75, 93]"
definition SEP :: str where "SEP = [91, 83, 69, 80, 93]"
definition PAD :: str where "PAD = [91, 80, 65, 68, 93]"
definition CLS :: str where "CLS = [91, 67, 76, 83, 93]"
definition MASK :: str where "MASK = [91, 77, 65, 83, 75, 93]"

definition example_vocab_text :: str where
  "example_vocab_text =
     PAD @ [LF] @ UNK @ [LF] @ CLS @ [LF] @ SEP @ [LF] @ MASK @ [LF] @
     [44032, LF, 45208, LF, SP, LF]"

definition example_world :: world where
  "example_world =
     \<lparr>files = [''vocab.txt'' \<mapsto> File True example_vocab_text],
      refuses_write = (\<lambda>p. None), warnings = []\<rparr>"

definition example_tokenizer :: tokenizer where
  "example_tokenizer =
     \<lparr>vocab = [(PAD, 0), (UNK, 1), (CLS, 2), (SEP, 3), (MASK, 4),
               ([44032], 5), ([45208], 6), ([SP], 7)],
      ids_to_tokens = [(0, PAD), (1, UNK), (2, CLS), (3, SEP), (4, MASK),
               (5, [44032]), (6, [45208]), (7, [SP])],
      unk_token = UNK, sep_token = SEP, pad_token = PAD, cls_token = CLS, mask_token = MASK\<rparr>"

text \<open>
  A vocabulary file \<open>a\nb\<close> whose last line has no line feed and which does not contain
  \<open>[UNK]\<close>; a file \<open>a\nb\na\n\<close> with a repeated token; a world with a directory \<open>out\<close>,
  no directory \<open>nodir\<close> and a path \<open>locked.txt\<close> that may not be written. Each
  tokenizer is what the constructor builds from the file next to it.
\<close>

definition plain_world :: world where
  "plain_world =
     \<lparr>files = [''vocab.txt'' \<mapsto> File True [97, LF, 98]],
      refuses_write = (\<lambda>p. None), warnings = []\<rparr>"

definition plain_tokenizer :: tokenizer where
  "plain_tokenizer =
     \<lparr>vocab = [([97], 0), ([98], 1)], ids_to_tokens = [(0, [97]), (1, [98])],
      unk_token = UNK, sep_token = SEP, pad_token = PAD, cls_token = CLS, mask_token = MASK\<rparr>"

definition duplicate_world :: world where
  "duplicate_world =
     \<lparr>files = [''vocab.txt'' \<mapsto> File True [97, LF, 98, LF, 97, LF]],
      refuses_write = (\<lambda>p. None), warnings = []\<rparr>"

definition duplicate_tokenizer :: tokenizer where
  "duplicate_tokenizer =
     \<lparr>vocab = [([97], 2), ([98], 1)], ids_to_tokens = [(2, [97]), (1, [98])],
      unk_token = UNK, sep_token = SEP, pad_token = PAD, cls_token = CLS, mask_token = MASK\<rparr>"

definition dir_world :: world where
  "dir_world =
     \<lparr>files = [''out'' \<mapsto> Dir],
      refuses_write = (\<lambda>p. if p = ''locked.txt'' then Some PermissionError else None),
      warnings = []\<rparr>"

section \<open>Splitting, joining and stripping\<close>

lemma isspace_SP: "isspace SP"
  by (simp add: isspace_def)

lemma py_split_stop: "dropWhile isspace s = [] \<Longrightarrow> py_split s = []"
  using py_split.simps [of s] by (simp add: Let_def)

lemma py_split_next:
  "dropWhile isspace s \<noteq> [] \<Longrightarrow>
   py_split s = takeWhile (\<lambda>c. \<not> isspace c) (dropWhile isspace s) #
                py_split (dropWhile (\<lambda>c. \<not> isspace c) (dropWhile isspace s))"
  using py_split.simps [of s] by (simp add: Let_def)

lemma py_split_all_space: "\<forall>c\<in>set s. isspace c \<Longrightarrow> py_split s = []"
  by (rule py_split_stop) simp

lemma py_split_Nil: "py_split [] = []"
  by (simp add: py_split_stop)

lemma py_split_word:
  assumes "s \<noteq> []" and "\<forall>c\<in>set s. \<not> isspace c"
  shows "py_split s = [s]"
proof -
  from assms have d: "dropWhile isspace s = s" by (cases s) auto
  from assms have t: "takeWhile (\<lambda>c. \<not> isspace c) s = s" by simp
  from assms have e: "dropWhile (\<lambda>c. \<not> isspace c) s = []" by simp
  have "dropWhile isspace s \<noteq> []" unfolding d by (rule assms(1))
  from py_split_next [OF this] show ?thesis by (simp only: d t e py_split_Nil)
qed

lemma py_split_drop_leading: "py_split (dropWhile isspace s) = py_split s"
proof (cases "dropWhile isspace s = []")
  case True
  then show ?thesis by (simp add: py_split_stop)
next
  case False
  then have "dropWhile isspace (dropWhile isspace s) \<noteq> []" unfolding dropWhile_idem .
  from py_split_next [OF this] py_split_next [OF False] show ?thesis
    by (simp only: dropWhile_idem)
qed

lemma py_split_words:
  "w \<in> set (py_split s) \<Longrightarrow> w \<noteq> [] \<and> (\<forall>c\<in>set w. \<not> isspace c)"
proof (induction s arbitrary: w rule: py_split.induct)
  case (1 s)
  let ?r = "dropWhile isspace s"
  show ?case
  proof (cases "?r = []")
    case True
    with "1.prems" show ?thesis by (simp only: py_split_stop) simp
  next
    case False
    then have hd: "\<not> isspace (hd ?r)" by (rule hd_dropWhile)
    from "1.prems" have
      "w = takeWhile (\<lambda>c. \<not> isspace c) ?r \<or> w \<in> set (py_split (dropWhile (\<lambda>c. \<not> isspace c) ?r))"
      unfolding py_split_next [OF False] by simp
    then show ?thesis
    proof
      assume w: "w = takeWhile (\<lambda>c. \<not> isspace c) ?r"
      from False hd have "w \<noteq> []" unfolding w by (cases ?r) auto
      moreover have "\<forall>c\<in>set w. \<not> isspace c" unfolding w by (auto dest: set_takeWhileD)
      ultimately show ?thesis by simp
    next
      assume "w \<in> set (py_split (dropWhile (\<lambda>c. \<not> isspace c) ?r))"
      with "1.IH" [OF refl False] show ?thesis by blast
    qed
  qed
qed

lemma filter_dropWhile_space:
  "filter (\<lambda>c. \<not> isspace c) (dropWhile isspace s) = filter (\<lambda>c. \<not> isspace c) s"
  by (induction s) auto

lemma concat_py_split: "concat (py_split s) = filter (\<lambda>c. \<not> isspace c) s"
proof (induction s rule: py_split.induct)
  case (1 s)
  let ?r = "dropWhile isspace s"
  show ?case
  proof (cases "?r = []")
    case True
    have "filter (\<lambda>c. \<not> isspace c) ?r = []" unfolding True by simp
    then have "filter (\<lambda>c. \<not> isspace c) s = []" unfolding filter_dropWhile_space .
    then show ?thesis unfolding py_split_stop [OF True] by simp
  next
    case False
    let ?w = "takeWhile (\<lambda>c. \<not> isspace c) ?r"
    let ?rest = "dropWhile (\<lambda>c. \<not> isspace c) ?r"
    have w: "filter (\<lambda>c. \<not> isspace c) ?w = ?w"
      by (auto simp: filter_id_conv dest: set_takeWhileD)
    have "filter (\<lambda>c. \<not> isspace c) s = filter (\<lambda>c. \<not> isspace c) (?w @ ?rest)"
      by (simp add: filter_dropWhile_space)
    also have "\<dots> = ?w @ filter (\<lambda>c. \<not> isspace c) ?rest"
      by (simp only: filter_append w)
    also have "\<dots> = ?w @ concat (py_split ?rest)"
      using "1.IH" [OF refl False] by simp
    also have "\<dots> = concat (py_split s)"
      by (simp only: py_split_next [OF False] concat.simps)
    finally show ?thesis by simp
  qed
qed

lemma py_split_drop_trailing:
  "\<forall>c\<in>set sp. isspace c \<Longrightarrow> py_split (x @ sp) = py_split x"
proof (induction x rule: py_split.induct)
  case (1 s)
  let ?r = "dropWhile isspace s"
  show ?case
  proof (cases "?r = []")
    case True
    then have "\<forall>c\<in>set (s @ sp). isspace c" using "1.prems" by (auto simp: dropWhile_eq_Nil_conv)
    moreover from True have "\<forall>c\<in>set s. isspace c" by (auto simp: dropWhile_eq_Nil_conv)
    ultimately show ?thesis by (simp only: py_split_all_space)
  next
    case False
    let ?w = "takeWhile (\<lambda>c. \<not> isspace c) ?r"
    let ?rest = "dropWhile (\<lambda>c. \<not> isspace c) ?r"
    from False obtain c where c: "c \<in> set s" "\<not> isspace c" by (auto simp: dropWhile_eq_Nil_conv)
    then have d: "dropWhile isspace (s @ sp) = ?r @ sp" by (auto simp: dropWhile_append)
    have t: "takeWhile (\<lambda>c. \<not> isspace c) (?r @ sp) = ?w"
      using "1.prems" by (cases sp) (auto simp: takeWhile_append takeWhile_eq_all_conv [THEN iffD2])
    have e: "dropWhile (\<lambda>c. \<not> isspace c) (?r @ sp) = ?rest @ sp"
      using "1.prems" by (cases sp) (auto simp: dropWhile_append)
    from False have ne: "dropWhile isspace (s @ sp) \<noteq> []" by (simp only: d) simp
    have "py_split (s @ sp) = ?w # py_split (?rest @ sp)"
      by (simp only: py_split_next [OF ne] d t e)
    also have "\<dots> = ?w # py_split ?rest"
      using "1.IH" [OF refl False "1.prems"] by simp
    also have "\<dots> = py_split s"
      by (simp only: py_split_next [OF False])
    finally show ?thesis .
  qed
qed

lemma takeWhile_hd_nonempty: "xs \<noteq> [] \<Longrightarrow> P (hd xs) \<Longrightarrow> takeWhile P xs \<noteq> []"
  by (cases xs) simp_all

lemma py_join_Cons: "xs \<noteq> [] \<Longrightarrow> py_join sep (x # xs) = x @ sep @ py_join sep xs"
  by (cases xs) simp_all

lemma py_join_butlast:
  "ws \<noteq> [] \<Longrightarrow> py_join sep ws = concat (map (\<lambda>w. w @ sep) (butlast ws)) @ last ws"
  by (induction ws rule: induct_list012) simp_all

lemma py_join_empty_sep: "py_join [] xs = concat xs"
  by (induction xs rule: induct_list012) simp_all

lemma hd_py_join: "ws \<noteq> [] \<Longrightarrow> hd ws \<noteq> [] \<Longrightarrow> hd (py_join sep ws) = hd (hd ws)"
  by (induction sep ws rule: py_join.induct) simp_all

lemma last_py_join:
  "ws \<noteq> [] \<Longrightarrow> \<forall>w\<in>set ws. w \<noteq> [] \<Longrightarrow> last (py_join sep ws) = last (last ws)"
proof (induction sep ws rule: py_join.induct)
  case (3 sep x y ys)
  then have "py_join sep (y # ys) \<noteq> []" by (cases ys) auto
  with 3 show ?case by simp
qed simp_all

lemma map_singleton_py_join:
  "map (\<lambda>c. [c]) (py_join [a] ws) = py_join [[a]] (map (map (\<lambda>c. [c])) ws)"
  by (induction ws rule: induct_list012) simp_all

lemma concat_singletons: "concat (map (\<lambda>c. [c]) u) = u"
  by (induction u) simp_all

lemma py_strip_decomp:
  "dropWhile isspace s = py_strip s @ rev (takeWhile isspace (rev (dropWhile isspace s)))"
proof -
  have "rev (rev (dropWhile isspace s)) =
      rev (takeWhile isspace (rev (dropWhile isspace s)) @ dropWhile isspace (rev (dropWhile isspace s)))"
    by (simp only: takeWhile_dropWhile_id)
  then show ?thesis by (simp add: py_strip_def del: takeWhile_dropWhile_id)
qed

lemma py_strip_ends:
  "py_strip s = [] \<or> (\<not> isspace (hd (py_strip s)) \<and> \<not> isspace (last (py_strip s)))"
proof (cases "py_strip s = []")
  case True
  then show ?thesis by simp
next
  case False
  let ?d = "dropWhile isspace s"
  let ?t = "dropWhile isspace (rev ?d)"
  from False have t_ne: "?t \<noteq> []" by (simp add: py_strip_def)
  then have "\<not> isspace (hd ?t)" by (rule hd_dropWhile)
  then have l: "\<not> isspace (last (py_strip s))" using t_ne by (simp add: py_strip_def last_rev)
  have d_ne: "?d \<noteq> []"
  proof
    assume a: "?d = []"
    have "?t = []" unfolding a by simp
    with t_ne show False ..
  qed
  then have "\<not> isspace (hd ?d)" by (rule hd_dropWhile)
  moreover have "hd ?d = hd (py_strip s)"
    using py_strip_decomp [of s] False by (metis hd_append2)
  ultimately show ?thesis using l by simp
qed

lemma py_strip_id:
  assumes "u = [] \<or> (\<not> isspace (hd u) \<and> \<not> isspace (last u))"
  shows "py_strip u = u"
proof (cases "u = []")
  case True
  then show ?thesis by (simp add: py_strip_def)
next
  case False
  with assms have h: "\<not> isspace (hd u)" and l: "\<not> isspace (last u)" by simp_all
  from False h have d: "dropWhile isspace u = u" by (cases u) auto
  from False l have "dropWhile isspace (rev u) = rev u"
    by (cases "rev u") (auto simp: last_rev [symmetric] hd_rev)
  then show ?thesis by (simp add: py_strip_def d)
qed

lemma py_split_strip: "py_split (py_strip s) = py_split s"
proof -
  have sp: "\<forall>c\<in>set (rev (takeWhile isspace (rev (dropWhile isspace s)))). isspace c"
    by (auto dest: set_takeWhileD)
  have "py_split s = py_split (dropWhile isspace s)" by (simp only: py_split_drop_leading)
  also have "\<dots> = py_split (py_strip s @ rev (takeWhile isspace (rev (dropWhile isspace s))))"
    using py_strip_decomp [of s] by simp
  also have "\<dots> = py_split (py_strip s)" by (rule py_split_drop_trailing [OF sp])
  finally show ?thesis by simp
qed

lemma join_split_ends:
  "py_join [SP] (py_split s) = [] \<or>
   (\<not> isspace (hd (py_join [SP] (py_split s))) \<and> \<not> isspace (last (py_join [SP] (py_split s))))"
proof (cases "py_split s = []")
  case True
  then show ?thesis by simp
next
  case False
  let ?ws = "py_split s"
  have words: "\<forall>w\<in>set ?ws. w \<noteq> [] \<and> (\<forall>c\<in>set w. \<not> isspace c)"
    using py_split_words by blast
  from False have h: "hd ?ws \<in> set ?ws" and l: "last ?ws \<in> set ?ws" by simp_all
  from words h have hne: "hd ?ws \<noteq> []" and hs: "\<not> isspace (hd (hd ?ws))" by auto
  from words l have lne: "last ?ws \<noteq> []" by blast
  with words l have ls: "\<not> isspace (last (last ?ws))" using last_in_set by blast
  from words have ne: "\<forall>w\<in>set ?ws. w \<noteq> []" by blast
  show ?thesis
    using hs ls by (simp add: hd_py_join [OF False hne] last_py_join [OF False ne])
qed

lemma whitespace_tokenize_split: "whitespace_tokenize s = py_split s"
proof (cases "py_strip s = []")
  case True
  have "py_split s = py_split (py_strip s)" by (simp only: py_split_strip)
  also have "\<dots> = []" unfolding True by (rule py_split_Nil)
  finally show ?thesis using True by (simp add: whitespace_tokenize_def)
next
  case False
  then show ?thesis by (simp add: whitespace_tokenize_def py_split_strip)
qed

subsection \<open>The code's normal form is the specification's\<close>

lemma collapse_runs_nospace_Cons: "\<not> isspace c \<Longrightarrow> collapse_runs (c # x) = c # collapse_runs x"
  by (cases x) simp_all

lemma collapse_runs_nospace_append:
  "\<forall>c\<in>set w. \<not> isspace c \<Longrightarrow> collapse_runs (w @ x) = w @ collapse_runs x"
  by (induction w) (simp_all add: collapse_runs_nospace_Cons)

lemma collapse_runs_spaces:
  "sp \<noteq> [] \<Longrightarrow> \<forall>c\<in>set sp. isspace c \<Longrightarrow> x \<noteq> [] \<Longrightarrow> \<not> isspace (hd x) \<Longrightarrow>
   collapse_runs (sp @ x) = SP # collapse_runs x"
proof (induction sp)
  case Nil
  then show ?case by simp
next
  case (Cons c sp)
  show ?case
  proof (cases sp)
    case Nil
    from Cons.prems obtain d ds where x: "x = d # ds" by (cases x) auto
    with Cons.prems Nil show ?thesis by simp
  next
    case (Cons c' sp')
    with Cons.prems Cons.IH show ?thesis by simp
  qed
qed

lemma join_split_collapse_aux:
  "s = [] \<or> \<not> isspace (last s) \<Longrightarrow>
   py_join [SP] (py_split s) = collapse_runs (dropWhile isspace s)"
proof (induction s rule: py_split.induct)
  case (1 s)
  let ?r = "dropWhile isspace s"
  show ?case
  proof (cases "?r = []")
    case True
    then show ?thesis unfolding py_split_stop [OF True] True by simp
  next
    case False
    let ?w = "takeWhile (\<lambda>c. \<not> isspace c) ?r"
    let ?rest = "dropWhile (\<lambda>c. \<not> isspace c) ?r"
    let ?sp = "takeWhile isspace ?rest"
    let ?r' = "dropWhile isspace ?rest"
    have split: "py_split s = ?w # py_split ?rest" by (rule py_split_next [OF False])
    have r: "?r = ?w @ ?rest" by simp
    have w_ns: "\<forall>c\<in>set ?w. \<not> isspace c" by (auto dest: set_takeWhileD)
    from False have s_ne: "s \<noteq> []" by auto
    with "1.prems" have last_s: "\<not> isspace (last s)" by simp
    have s_eq: "s = takeWhile isspace s @ ?r" by simp
    have last_r: "last ?r = last s" using False s_eq by (metis last_appendR)
    show ?thesis
    proof (cases "?rest = []")
      case True
      have "?r = ?w" using r True by simp
      then have "collapse_runs ?r = ?w"
        using collapse_runs_nospace_append [OF w_ns, of "[]"] by simp
      moreover have "py_join [SP] (py_split s) = ?w"
        unfolding split True py_split_Nil by simp
      ultimately show ?thesis by simp
    next
      case rest_ne: False
      have "last ?rest = last (?w @ ?rest)" by (rule last_appendR [OF rest_ne, symmetric])
      also have "?w @ ?rest = ?r" by (rule takeWhile_dropWhile_id)
      also note last_r
      finally have lr: "last ?rest = last s" .
      have last_rest: "\<not> isspace (last ?rest)" unfolding lr by (rule last_s)
      have r'_ne: "?r' \<noteq> []"
      proof
        assume "?r' = []"
        then have all: "\<forall>c\<in>set ?rest. isspace c" by (simp only: dropWhile_eq_Nil_conv)
        have "last ?rest \<in> set ?rest" using rest_ne by (rule last_in_set)
        with all have "isspace (last ?rest)" by (rule bspec)
        with last_rest show False ..
      qed
      have hd_r': "\<not> isspace (hd ?r')" using r'_ne by (rule hd_dropWhile)
      have "\<not> \<not> isspace (hd ?rest)" using rest_ne by (rule hd_dropWhile)
      then have "isspace (hd ?rest)" by (rule notnotD)
      with rest_ne have sp_ne: "?sp \<noteq> []" by (rule takeWhile_hd_nonempty)
      have sp_s: "\<forall>c\<in>set ?sp. isspace c" by (auto dest: set_takeWhileD)
      have IH: "py_join [SP] (py_split ?rest) = collapse_runs ?r'"
        by (rule "1.IH" [OF refl False]) (rule disjI2, rule last_rest)
      have ne: "py_split ?rest \<noteq> []" unfolding py_split_next [OF r'_ne] by simp
      have j: "py_join [SP] (py_split s) = ?w @ [SP] @ collapse_runs ?r'"
        unfolding split py_join_Cons [OF ne] IH ..
      have "collapse_runs ?r = collapse_runs (?w @ (?sp @ ?r'))"
        by (simp only: takeWhile_dropWhile_id)
      also have "\<dots> = ?w @ collapse_runs (?sp @ ?r')"
        by (rule collapse_runs_nospace_append [OF w_ns])
      also have "\<dots> = ?w @ SP # collapse_runs ?r'"
        by (simp only: collapse_runs_spaces [OF sp_ne sp_s r'_ne hd_r'])
      finally have c: "collapse_runs ?r = ?w @ SP # collapse_runs ?r'" .
      show ?thesis unfolding j c by simp
    qed
  qed
qed

lemma join_split_collapse: "py_join [SP] (py_split s) = collapse_runs (py_strip s)"
proof -
  let ?t = "py_strip s"
  have e: "?t = [] \<or> (\<not> isspace (hd ?t) \<and> \<not> isspace (last ?t))" by (rule py_strip_ends)
  then have d: "dropWhile isspace ?t = ?t" by (cases ?t) auto
  from e have "?t = [] \<or> \<not> isspace (last ?t)" by blast
  from join_split_collapse_aux [OF this] show ?thesis
    unfolding d py_split_strip .
qed

section \<open>Loading a vocabulary\<close>

lemma vocab_of_lines_snoc:
  "vocab_of_lines (xs @ [x]) =
     AList.update (rstrip_newline x) (int (length xs)) (vocab_of_lines xs)"
  by (simp add: vocab_of_lines_def enumerate_append_eq)

lemma vocab_of_lines_Nil: "vocab_of_lines [] = []"
  by (simp add: vocab_of_lines_def)

lemma map_of_vocab_of_lines:
  "map_of (vocab_of_lines xs) t = Some j \<longleftrightarrow>
     (\<exists>k<length xs. j = int k \<and> rstrip_newline (xs ! k) = t \<and>
        (\<forall>m. k < m \<and> m < length xs \<longrightarrow> rstrip_newline (xs ! m) \<noteq> t))"
proof (induction xs arbitrary: j rule: rev_induct)
  case Nil
  show ?case by (simp add: vocab_of_lines_Nil)
next
  case (snoc x xs)
  let ?n = "length xs"
  show ?case
  proof (cases "rstrip_newline x = t")
    case True
    have l: "map_of (vocab_of_lines (xs @ [x])) t = Some (int ?n)"
      by (simp add: vocab_of_lines_snoc update_conv' True)
    have r: "(\<exists>k<length (xs @ [x]). j = int k \<and> rstrip_newline ((xs @ [x]) ! k) = t \<and>
        (\<forall>m. k < m \<and> m < length (xs @ [x]) \<longrightarrow> rstrip_newline ((xs @ [x]) ! m) \<noteq> t))
        \<longleftrightarrow> j = int ?n"
    proof
      assume "\<exists>k<length (xs @ [x]). j = int k \<and> rstrip_newline ((xs @ [x]) ! k) = t \<and>
        (\<forall>m. k < m \<and> m < length (xs @ [x]) \<longrightarrow> rstrip_newline ((xs @ [x]) ! m) \<noteq> t)"
      then obtain k where k: "k < Suc ?n" "j = int k"
        and last: "\<forall>m. k < m \<and> m < Suc ?n \<longrightarrow> rstrip_newline ((xs @ [x]) ! m) \<noteq> t"
        by auto
      have "k = ?n"
      proof (rule ccontr)
        assume "k \<noteq> ?n"
        with k have "k < ?n" by simp
        with last [rule_format, of ?n] have "rstrip_newline ((xs @ [x]) ! ?n) \<noteq> t" by simp
        with True show False by simp
      qed
      with k show "j = int ?n" by simp
    next
      assume "j = int ?n"
      with True show "\<exists>k<length (xs @ [x]). j = int k \<and> rstrip_newline ((xs @ [x]) ! k) = t \<and>
        (\<forall>m. k < m \<and> m < length (xs @ [x]) \<longrightarrow> rstrip_newline ((xs @ [x]) ! m) \<noteq> t)"
        by (intro exI [of _ ?n]) auto
    qed
    show ?thesis unfolding l r by auto
  next
    case False
    have l: "map_of (vocab_of_lines (xs @ [x])) t = map_of (vocab_of_lines xs) t"
      using False by (simp add: vocab_of_lines_snoc update_conv')
    have r: "(\<exists>k<length (xs @ [x]). j = int k \<and> rstrip_newline ((xs @ [x]) ! k) = t \<and>
        (\<forall>m. k < m \<and> m < length (xs @ [x]) \<longrightarrow> rstrip_newline ((xs @ [x]) ! m) \<noteq> t))
        \<longleftrightarrow> (\<exists>k<length xs. j = int k \<and> rstrip_newline (xs ! k) = t \<and>
        (\<forall>m. k < m \<and> m < length xs \<longrightarrow> rstrip_newline (xs ! m) \<noteq> t))"
      (is "?L \<longleftrightarrow> ?R")
    proof
      assume ?L
      then obtain k where k: "k < Suc ?n" "j = int k" "rstrip_newline ((xs @ [x]) ! k) = t"
        and last: "\<forall>m. k < m \<and> m < Suc ?n \<longrightarrow> rstrip_newline ((xs @ [x]) ! m) \<noteq> t"
        by auto
      from k(3) False have "k \<noteq> ?n" by auto
      with k(1) have kn: "k < ?n" by simp
      with k(3) have a: "rstrip_newline (xs ! k) = t" by (simp add: nth_append)
      have "\<forall>m. k < m \<and> m < ?n \<longrightarrow> rstrip_newline (xs ! m) \<noteq> t"
      proof (intro allI impI)
        fix m assume m: "k < m \<and> m < ?n"
        with last have "rstrip_newline ((xs @ [x]) ! m) \<noteq> t" by simp
        with m show "rstrip_newline (xs ! m) \<noteq> t" by (simp add: nth_append)
      qed
      with kn k(2) a show ?R by blast
    next
      assume ?R
      then obtain k where k: "k < ?n" "j = int k" "rstrip_newline (xs ! k) = t"
        and last: "\<forall>m. k < m \<and> m < ?n \<longrightarrow> rstrip_newline (xs ! m) \<noteq> t"
        by auto
      have "\<forall>m. k < m \<and> m < length (xs @ [x]) \<longrightarrow> rstrip_newline ((xs @ [x]) ! m) \<noteq> t"
      proof (intro allI impI)
        fix m assume m: "k < m \<and> m < length (xs @ [x])"
        show "rstrip_newline ((xs @ [x]) ! m) \<noteq> t"
        proof (cases "m = ?n")
          case True
          with False show ?thesis by simp
        next
          case False
          with m have "m < ?n" by simp
          with m last show ?thesis by (simp add: nth_append)
        qed
      qed
      moreover from k have "rstrip_newline ((xs @ [x]) ! k) = t" by (simp add: nth_append)
      ultimately show ?L using k(1,2) by (intro exI [of _ k]) simp
    qed
    show ?thesis unfolding l r by (rule snoc.IH)
  qed
qed

lemma distinct_vocab_of_lines: "distinct (map fst (vocab_of_lines xs))"
  by (induction xs rule: rev_induct)
    (simp_all add: vocab_of_lines_Nil vocab_of_lines_snoc distinct_update)

lemma vocab_of_lines_inj:
  assumes "map_of (vocab_of_lines xs) t = Some j" and "map_of (vocab_of_lines xs) t' = Some j"
  shows "t = t'"
proof -
  from assms(1) obtain k where k: "j = int k" "rstrip_newline (xs ! k) = t"
    unfolding map_of_vocab_of_lines by blast
  from assms(2) obtain k' where k': "j = int k'" "rstrip_newline (xs ! k') = t'"
    unfolding map_of_vocab_of_lines by blast
  from k(1) k'(1) have "k = k'" by simp
  with k(2) k'(2) show ?thesis by simp
qed

lemma distinct_ids_vocab_of_lines: "distinct (map snd (vocab_of_lines xs))"
proof -
  let ?v = "vocab_of_lines xs"
  have d: "distinct (map fst ?v)" by (rule distinct_vocab_of_lines)
  have "inj_on snd (set ?v)"
  proof (rule inj_onI)
    fix p q assume p: "p \<in> set ?v" and q: "q \<in> set ?v" and e: "snd p = snd q"
    from p have "map_of ?v (fst p) = Some (snd p)"
      using map_of_is_SomeI [OF d, of "fst p" "snd p"] by simp
    moreover from q e have "map_of ?v (fst q) = Some (snd p)"
      using map_of_is_SomeI [OF d, of "fst q" "snd q"] by simp
    ultimately have "fst p = fst q" by (rule vocab_of_lines_inj)
    with e show "p = q" by (simp add: prod_eq_iff)
  qed
  moreover from d have "distinct ?v" by (simp add: distinct_map)
  ultimately show ?thesis by (simp add: distinct_map)
qed

lemma update_fresh: "k \<notin> fst ` set al \<Longrightarrow> AList.update k v al = al @ [(k, v)]"
  by (induction al) auto

lemma foldl_update_fresh:
  "distinct (map fst xs) \<Longrightarrow> fst ` set xs \<inter> fst ` set acc = {} \<Longrightarrow>
   foldl (\<lambda>d (k, v). AList.update k v d) acc xs = acc @ xs"
proof (induction xs arbitrary: acc)
  case Nil
  show ?case by simp
next
  case (Cons p xs)
  obtain k v where p: "p = (k, v)" by (cases p)
  from Cons.prems p have fresh: "k \<notin> fst ` set acc" by auto
  have "foldl (\<lambda>d (k, v). AList.update k v d) (acc @ [(k, v)]) xs = (acc @ [(k, v)]) @ xs"
    using Cons.prems p by (intro Cons.IH) auto
  then show ?case by (simp add: p update_fresh [OF fresh])
qed

lemma ids_to_tokens_swap:
  assumes "distinct (map snd v)"
  shows "foldl (\<lambda>d (tok, ids). AList.update ids tok d) [] v = map (\<lambda>(tok, ids). (ids, tok)) v"
proof -
  let ?sw = "\<lambda>(tok, ids). (ids, tok)"
  have "foldl (\<lambda>d (tok, ids). AList.update ids tok d) [] v =
        foldl (\<lambda>d (k, v). AList.update k v d) [] (map ?sw v)"
    by (simp add: foldl_map split_def)
  also have "\<dots> = [] @ map ?sw v"
    using assms by (intro foldl_update_fresh) (simp_all add: comp_def case_prod_beta)
  finally show ?thesis by simp
qed

lemma map_of_swap:
  assumes "distinct (map fst v)" and "distinct (map snd v)"
  shows "map_of (map (\<lambda>(tok, ids). (ids, tok)) v) i = Some t \<longleftrightarrow> map_of v t = Some i"
proof -
  let ?sw = "\<lambda>(tok, ids). (ids, tok)"
  have f: "map fst (map ?sw v) = map snd v" by (simp add: comp_def case_prod_beta)
  have "map_of (map ?sw v) i = Some t \<longleftrightarrow> (i, t) \<in> set (map ?sw v)"
    using assms(2) by (simp only: map_of_eq_Some_iff f)
  also have "\<dots> \<longleftrightarrow> (t, i) \<in> set v" by auto
  also have "\<dots> \<longleftrightarrow> map_of v t = Some i" using assms(1) by simp
  finally show ?thesis .
qed

lemma init_Inr:
  assumes "KoCharElectraTokenizer_init w vocab_file unk sep pad cls msk = Inr tk"
  shows "\<exists>text. files w vocab_file = Some (File True text) \<and> \<not> list_ex is_surrogate text \<and>
           tk = \<lparr>vocab = vocab_of_lines (readlines text),
                 ids_to_tokens = map (\<lambda>(tok, ids). (ids, tok)) (vocab_of_lines (readlines text)),
                 unk_token = unk, sep_token = sep, pad_token = pad,
                 cls_token = cls, mask_token = msk\<rparr>"
  using assms
  by (auto simp: KoCharElectraTokenizer_init_def isfile_def load_vocab_def open_read_def
        ids_to_tokens_swap [OF distinct_ids_vocab_of_lines]
      split: option.splits node.splits if_splits)

lemma init_inverse:
  assumes "KoCharElectraTokenizer_init w vocab_file unk sep pad cls msk = Inr tk"
  shows "map_of (ids_to_tokens tk) i = Some t \<longleftrightarrow> map_of (vocab tk) t = Some i"
proof -
  from init_Inr [OF assms] obtain content where
    "tk = \<lparr>vocab = vocab_of_lines (readlines content),
          ids_to_tokens = map (\<lambda>(tok, ids). (ids, tok)) (vocab_of_lines (readlines content)),
          unk_token = unk, sep_token = sep, pad_token = pad,
          cls_token = cls, mask_token = msk\<rparr>" by blast
  then have v: "vocab tk = vocab_of_lines (readlines content)"
    and i: "ids_to_tokens tk = map (\<lambda>(tok, ids). (ids, tok)) (vocab_of_lines (readlines content))"
    by simp_all
  show ?thesis unfolding v i
    by (rule map_of_swap [OF distinct_vocab_of_lines distinct_ids_vocab_of_lines])
qed

lemma keys_vocab_of_lines: "fst ` set (vocab_of_lines xs) = rstrip_newline ` set xs"
  by (induction xs rule: rev_induct)
    (auto simp: vocab_of_lines_Nil vocab_of_lines_snoc dom_update)

lemma vocab_of_lines_distinct:
  "distinct (map rstrip_newline xs) \<Longrightarrow>
   vocab_of_lines xs = zip (map rstrip_newline xs) (map int [0..<length xs])"
proof (induction xs rule: rev_induct)
  case Nil
  show ?case by (simp add: vocab_of_lines_Nil)
next
  case (snoc x xs)
  from snoc.prems have d: "distinct (map rstrip_newline xs)"
    and f: "rstrip_newline x \<notin> rstrip_newline ` set xs" by auto
  have fresh: "rstrip_newline x \<notin> fst ` set (vocab_of_lines xs)"
    unfolding keys_vocab_of_lines by (rule f)
  have "vocab_of_lines (xs @ [x]) = vocab_of_lines xs @ [(rstrip_newline x, int (length xs))]"
    by (simp only: vocab_of_lines_snoc update_fresh [OF fresh])
  then show ?case by (simp add: snoc.IH [OF d])
qed

lemma last_line_id:
  assumes "xs \<noteq> []"
  shows "map_of (vocab_of_lines xs) (rstrip_newline (last xs)) = Some (int (length xs - 1))"
proof -
  from assms obtain ys y where xs: "xs = ys @ [y]" by (cases xs rule: rev_cases) auto
  show ?thesis by (simp add: xs vocab_of_lines_snoc update_conv')
qed

lemma contiguous_distinct:
  assumes "ids_contiguous (vocab_of_lines xs)"
  shows "distinct (map rstrip_newline xs)"
proof (cases "xs = []")
  case True
  then show ?thesis by simp
next
  case False
  let ?v = "vocab_of_lines xs"
  have "set (map snd (sort_key snd ?v)) = set (map int [0..<length ?v])"
    using assms by (simp only: ids_contiguous_def)
  then have ids: "snd ` set ?v = int ` {0..<length ?v}" by simp
  from last_line_id [OF False] have "(rstrip_newline (last xs), int (length xs - 1)) \<in> set ?v"
    by (rule map_of_SomeD)
  then have "int (length xs - 1) \<in> snd ` set ?v" by force
  with ids have "length xs - 1 < length ?v" by auto
  with False have le: "length xs \<le> length ?v" by (cases xs) auto
  have "length ?v = length (map fst ?v)" by simp
  also have "\<dots> = card (set (map fst ?v))"
    by (rule distinct_card [OF distinct_vocab_of_lines, symmetric])
  also have "set (map fst ?v) = set (map rstrip_newline xs)"
    using keys_vocab_of_lines [of xs] by simp
  finally have "length ?v = card (set (map rstrip_newline xs))" .
  with le have "length (map rstrip_newline xs) \<le> card (set (map rstrip_newline xs))" by simp
  moreover have "card (set (map rstrip_newline xs)) \<le> length (map rstrip_newline xs)"
    by (rule card_length)
  ultimately have "card (set (map rstrip_newline xs)) = length (map rstrip_newline xs)"
    by (rule order_antisym [rotated])
  then show ?thesis by (rule card_distinct)
qed

lemma sort_contiguous_vocab:
  assumes "distinct (map rstrip_newline xs)"
  shows "sort_key snd (vocab_of_lines xs) = zip (map rstrip_newline xs) (map int [0..<length xs])"
proof -
  let ?z = "zip (map rstrip_newline xs) (map int [0..<length xs])"
  have "map snd ?z = map int [0..<length xs]" by simp
  moreover have "sorted (map int [0..<length xs])"
    by (simp add: sorted_map sorted_wrt_iff_nth_less)
  ultimately have "sorted (map snd ?z)" by simp
  then have "sort_key snd ?z = ?z" by (rule sort_key_id_if_sorted)
  then show ?thesis by (simp only: vocab_of_lines_distinct [OF assms])
qed

lemma map_known_id:
  "\<forall>t\<in>set X. m t \<noteq> None \<Longrightarrow> map (\<lambda>t. if m t = None then u else t) X = X"
  by (induction X) auto

lemma roundtrip_token:
  assumes "KoCharElectraTokenizer_init w vocab_file unk sep pad cls msk = Inr tk"
  shows "convert_id_to_token tk (convert_token_to_id tk t) =
           (if map_of (vocab tk) t = None then unk_token tk else t)"
proof (cases "map_of (vocab tk) t")
  case (Some i)
  then have "map_of (ids_to_tokens tk) i = Some t" by (simp only: init_inverse [OF assms])
  with Some show ?thesis by (simp add: convert_id_to_token_def convert_token_to_id_def)
next
  case None
  show ?thesis
  proof (cases "map_of (vocab tk) (unk_token tk)")
    case n: None
    with None show ?thesis by (simp add: convert_id_to_token_def convert_token_to_id_def)
  next
    case (Some u)
    then have "map_of (ids_to_tokens tk) u = Some (unk_token tk)"
      by (simp only: init_inverse [OF assms])
    with None Some show ?thesis by (simp add: convert_id_to_token_def convert_token_to_id_def)
  qed
qed

subsection \<open>Reading lines\<close>

lemma universal_newlines_id: "CR \<notin> set s \<Longrightarrow> universal_newlines s = s"
  by (induction s rule: universal_newlines.induct) auto

lemma rstrip_newline_line: "LF \<notin> set b \<Longrightarrow> rstrip_newline (b @ [LF]) = b"
proof -
  assume a: "LF \<notin> set b"
  have "dropWhile (\<lambda>c. c = LF) (rev b) = rev b"
    using a by (cases "rev b") (auto simp: in_set_conv_decomp)
  then show ?thesis by (simp add: rstrip_newline_def)
qed

lemma readlines_from_terminated:
  "LF \<notin> set cur \<Longrightarrow> (cs = [] \<longrightarrow> cur = []) \<Longrightarrow> (cs \<noteq> [] \<longrightarrow> last cs = LF) \<Longrightarrow>
   concat (map (\<lambda>l. rstrip_newline l @ [LF]) (readlines_from cur cs)) = cur @ cs"
proof (induction cs arbitrary: cur)
  case Nil
  then show ?case by simp
next
  case (Cons c cs)
  show ?case
  proof (cases "c = LF")
    case True
    have "concat (map (\<lambda>l. rstrip_newline l @ [LF]) (readlines_from [] cs)) = [] @ cs"
      using Cons.prems by (intro Cons.IH) auto
    with True Cons.prems show ?thesis by (simp add: rstrip_newline_line)
  next
    case False
    with Cons.prems have ne: "cs \<noteq> []" by auto
    have "concat (map (\<lambda>l. rstrip_newline l @ [LF]) (readlines_from (cur @ [c]) cs)) = (cur @ [c]) @ cs"
      using Cons.prems False ne by (intro Cons.IH) auto
    with False show ?thesis by simp
  qed
qed

lemma readlines_terminated:
  assumes "newline_terminated s"
  shows "concat (map (\<lambda>l. rstrip_newline l @ [LF]) (readlines s)) = s"
proof -
  from assms have u: "universal_newlines s = s"
    by (simp add: newline_terminated_def universal_newlines_id)
  from assms have "concat (map (\<lambda>l. rstrip_newline l @ [LF]) (readlines_from [] s)) = [] @ s"
    by (intro readlines_from_terminated) (auto simp: newline_terminated_def)
  then show ?thesis by (simp add: readlines_def u)
qed

subsection \<open>The loop of \<open>save_vocabulary\<close>\<close>

lemma write_tokens_encodable:
  "\<forall>kv\<in>set items. \<not> list_ex is_surrogate (fst kv) \<Longrightarrow>
   \<exists>n. write_tokens f i wr wn items =
         (None, wr @ concat (map (\<lambda>kv. fst kv @ [LF]) items), wn @ replicate n f) \<and>
       (n = 0 \<longleftrightarrow> map snd items = map (\<lambda>k. i + int k) [0..<length items])"
proof (induction items arbitrary: i wr wn)
  case Nil
  show ?case by simp
next
  case (Cons kv items)
  obtain t j where kv: "kv = (t, j)" by (cases kv)
  from Cons.prems kv have t: "\<not> list_ex is_surrogate t"
    and rest: "\<forall>kv\<in>set items. \<not> list_ex is_surrogate (fst kv)" by simp_all
  have shift: "map (\<lambda>k. i + int k) [0..<Suc (length items)] =
      i # map (\<lambda>k. (i + 1) + int k) [0..<length items]"
    by (simp add: upt_conv_Cons map_Suc_upt [symmetric] del: upt_Suc)
  show ?case
  proof (cases "i = j")
    case True
    from Cons.IH [OF rest, of "i + 1" "wr @ t @ [LF]" wn] obtain n where
      n: "write_tokens f (i + 1) (wr @ t @ [LF]) wn items =
            (None, (wr @ t @ [LF]) @ concat (map (\<lambda>kv. fst kv @ [LF]) items),
             wn @ replicate n f)"
         "n = 0 \<longleftrightarrow> map snd items = map (\<lambda>k. (i + 1) + int k) [0..<length items]" by blast
    show ?thesis
      by (rule exI [of _ n]) (simp add: kv True [symmetric] t n shift del: upt_Suc)
  next
    case False
    from Cons.IH [OF rest, of "j + 1" "wr @ t @ [LF]" "wn @ [f]"] obtain n where
      n: "write_tokens f (j + 1) (wr @ t @ [LF]) (wn @ [f]) items =
            (None, (wr @ t @ [LF]) @ concat (map (\<lambda>kv. fst kv @ [LF]) items),
             (wn @ [f]) @ replicate n f)" by blast
    show ?thesis
      using False
      by (intro exI [of _ "Suc n"]) (simp add: kv t n shift replicate_app_Cons_same del: upt_Suc)
  qed
qed

lemma saved_file_refused:
  assumes "vocab_file =
      (if isdir w vocab_path then path_join vocab_path ''vocab.txt'' else vocab_path)"
    and "open_write w vocab_file = Some e"
  shows "save_vocabulary tk vocab_path w = (Inl e, w)"
  using assms(2) unfolding save_vocabulary_def Let_def assms(1) [symmetric] by simp

lemma saved_file_save:
  assumes "vocab_file =
      (if isdir w vocab_path then path_join vocab_path ''vocab.txt'' else vocab_path)"
    and "open_write w vocab_file = None"
    and "write_tokens vocab_file 0 [] (warnings w) (sort_key snd (vocab tk)) =
           (None, written, warns)"
  shows "saved_file (save_vocabulary tk vocab_path w) =
      Inr (vocab_file,
           Some (File (case files w vocab_file of Some (File r t) \<Rightarrow> r | _ \<Rightarrow> True) written),
           warns)"
  using assms(2)
  unfolding save_vocabulary_def Let_def assms(1) [symmetric] assms(3) saved_file_def
  by simp

subsection \<open>Loaded tokens can be encoded\<close>

lemma set_universal_newlines: "set (universal_newlines s) \<subseteq> insert LF (set s)"
  by (induction s rule: universal_newlines.induct) auto

lemma set_readlines_from:
  "l \<in> set (readlines_from cur cs) \<Longrightarrow> set l \<subseteq> set cur \<union> set cs"
proof (induction cs arbitrary: cur)
  case Nil
  then show ?case by (auto split: if_splits)
next
  case (Cons c cs)
  show ?case
  proof (cases "c = LF")
    case True
    with Cons.prems have "l = cur @ [c] \<or> l \<in> set (readlines_from [] cs)" by simp
    then show ?thesis
    proof
      assume "l = cur @ [c]"
      then show ?thesis by auto
    next
      assume "l \<in> set (readlines_from [] cs)"
      from Cons.IH [OF this] show ?thesis by auto
    qed
  next
    case False
    with Cons.prems have "l \<in> set (readlines_from (cur @ [c]) cs)" by simp
    from Cons.IH [OF this] show ?thesis by auto
  qed
qed

lemma set_rstrip_newline: "set (rstrip_newline l) \<subseteq> set l"
proof -
  have "set (dropWhile (\<lambda>c. c = LF) (rev l)) \<subseteq> set (rev l)"
    by (rule set_dropWhileD [THEN subsetI])
  then show ?thesis by (simp add: rstrip_newline_def)
qed

lemma not_surrogate_LF: "\<not> is_surrogate LF"
  by (simp add: is_surrogate_def)

lemma encodable_vocab_of_lines:
  assumes "\<not> list_ex is_surrogate content"
  shows "encodable (vocab_of_lines (readlines content))"
proof -
  have "\<not> list_ex is_surrogate (fst kv)" if kv: "kv \<in> set (vocab_of_lines (readlines content))"
    for kv
  proof -
    from kv have "fst kv \<in> rstrip_newline ` set (readlines content)"
      using keys_vocab_of_lines [of "readlines content"] by force
    then obtain l where l: "l \<in> set (readlines content)" and t: "fst kv = rstrip_newline l"
      by blast
    from l have "set l \<subseteq> set (universal_newlines content)"
      using set_readlines_from [of l "[]" "universal_newlines content"]
      by (simp add: readlines_def)
    with set_universal_newlines [of content] set_rstrip_newline [of l]
    have "set (fst kv) \<subseteq> insert LF (set content)" unfolding t by blast
    with assms not_surrogate_LF show ?thesis by (auto simp: list_ex_iff)
  qed
  then show ?thesis by (simp add: encodable_def list_all_iff)
qed

subsection \<open>The examples, evaluated\<close>

lemma readlines_example:
  "readlines example_vocab_text =
     [PAD @ [LF], UNK @ [LF], CLS @ [LF], SEP @ [LF], MASK @ [LF], [44032, LF], [45208, LF], [SP, LF]]"
  by (simp add: readlines_def example_vocab_text_def PAD_def UNK_def CLS_def SEP_def MASK_def)

lemma vocab_example:
  "vocab_of_lines (readlines example_vocab_text) = vocab example_tokenizer"
  unfolding readlines_example
  by (simp add: vocab_of_lines_def enumerate_eq_zip rstrip_newline_def example_tokenizer_def
      PAD_def UNK_def CLS_def SEP_def MASK_def upt_rec)

lemma decodable_example: "\<not> list_ex is_surrogate example_vocab_text"
  by (simp add: example_vocab_text_def PAD_def UNK_def CLS_def SEP_def MASK_def is_surrogate_def)

lemma init_example:
  "KoCharElectraTokenizer_init example_world ''vocab.txt'' UNK SEP PAD CLS MASK =
     Inr example_tokenizer"
proof -
  have f: "files example_world ''vocab.txt'' = Some (File True example_vocab_text)"
    by (simp add: example_world_def)
  have i: "foldl (\<lambda>d (tok, ids). AList.update ids tok d) [] (vocab example_tokenizer) =
      ids_to_tokens example_tokenizer"
    by (simp add: example_tokenizer_def)
  show ?thesis
    by (simp add: KoCharElectraTokenizer_init_def isfile_def load_vocab_def open_read_def f
        vocab_example i decodable_example) (simp add: example_tokenizer_def)
qed

lemma init_plain:
  "KoCharElectraTokenizer_init plain_world ''vocab.txt'' UNK SEP PAD CLS MASK =
     Inr plain_tokenizer"
  by (simp add: KoCharElectraTokenizer_init_def isfile_def load_vocab_def open_read_def
      plain_world_def plain_tokenizer_def readlines_def vocab_of_lines_def enumerate_eq_zip
      rstrip_newline_def upt_rec is_surrogate_def)

lemma init_duplicate:
  "KoCharElectraTokenizer_init duplicate_world ''vocab.txt'' UNK SEP PAD CLS MASK =
     Inr duplicate_tokenizer"
  by (simp add: KoCharElectraTokenizer_init_def isfile_def load_vocab_def open_read_def
      duplicate_world_def duplicate_tokenizer_def readlines_def vocab_of_lines_def
      enumerate_eq_zip rstrip_newline_def upt_rec is_surrogate_def)

lemma example_ids:
  "cls_token_id example_tokenizer = Some 2 \<and> sep_token_id example_tokenizer = Some 3"
  by (simp add: cls_token_id_def sep_token_id_def convert_token_to_id_def example_tokenizer_def
      PAD_def UNK_def CLS_def SEP_def MASK_def)

subsection \<open>Positions of the special tokens\<close>

lemma mask_single_nth:
  "1 # replicate n (0::int) @ [1] = map (\<lambda>i. if i = 0 \<or> i = n + 1 then 1 else 0) [0..<n + 2]"
  by (rule nth_equalityI) (auto simp: nth_Cons' nth_append simp del: upt_Suc)

lemma mask_pair_nth:
  "1 # replicate n (0::int) @ 1 # replicate k 0 @ [1] =
     map (\<lambda>i. if i = 0 \<or> i = n + 1 \<or> i = n + k + 2 then 1 else 0) [0..<n + k + 3]"
  by (rule nth_equalityI) (auto simp: nth_Cons' nth_append simp del: upt_Suc)

section \<open>Construction\<close>

text \<open>
  C1 (as stated, refuted). The claim says that construction aborts whenever a special
  token cannot be resolved in the loaded vocabulary, in particular for every existing
  vocabulary file without the unknown-token string. The constructor only tests that the
  path is a regular file and then loads it; it never looks a special token up. For the
  file \<open>a\nb\<close>, which exists and does not contain \<open>[UNK]\<close>, construction succeeds.
\<close>

theorem init_without_unk_counterexample:
  "isfile plain_world ''vocab.txt''
   \<and> KoCharElectraTokenizer_init plain_world ''vocab.txt'' UNK SEP PAD CLS MASK =
       Inr plain_tokenizer
   \<and> map_of (vocab plain_tokenizer) UNK = None"
  using init_plain by (simp add: isfile_def plain_world_def plain_tokenizer_def UNK_def)

text \<open>
  C1 (amended). Construction fails, and yields no tokenizer, when the vocabulary path is
  not a regular file (\<open>ValueError\<close>), when the file cannot be read (\<open>PermissionError\<close>)
  and when its bytes are not valid UTF-8 (\<open>UnicodeDecodeError\<close>). When the file is
  readable and valid UTF-8, construction succeeds with the vocabulary loaded from it, the
  reverse mapping derived from that vocabulary and the five special-token strings stored
  as given, whether or not they occur in the vocabulary.
\<close>

theorem init_outcome:
  "(\<not> isfile w vocab_file \<longrightarrow>
      KoCharElectraTokenizer_init w vocab_file unk sep pad cls msk = Inl ValueError)
   \<and> (files w vocab_file = Some (File False content) \<longrightarrow>
      KoCharElectraTokenizer_init w vocab_file unk sep pad cls msk = Inl PermissionError)
   \<and> (files w vocab_file = Some (File True content) \<and> list_ex is_surrogate content \<longrightarrow>
      KoCharElectraTokenizer_init w vocab_file unk sep pad cls msk = Inl UnicodeDecodeError)
   \<and> (files w vocab_file = Some (File True content) \<and> \<not> list_ex is_surrogate content \<longrightarrow>
      KoCharElectraTokenizer_init w vocab_file unk sep pad cls msk =
        Inr \<lparr>vocab = vocab_of_lines (readlines content),
             ids_to_tokens = map (\<lambda>(tok, ids). (ids, tok)) (vocab_of_lines (readlines content)),
             unk_token = unk, sep_token = sep, pad_token = pad, cls_token = cls,
             mask_token = msk\<rparr>)"
  by (simp add: KoCharElectraTokenizer_init_def isfile_def load_vocab_def open_read_def
      ids_to_tokens_swap [OF distinct_ids_vocab_of_lines])

text \<open>
  C1, witness: a missing path, an unreadable file, a readable file that is not UTF-8 (the
  byte \<open>0xFF\<close>, which stands in the text as U+DCFF) and the readable file \<open>a\nb\<close>.
\<close>

theorem init_outcome_witness:
  "KoCharElectraTokenizer_init plain_world ''missing.txt'' UNK SEP PAD CLS MASK = Inl ValueError
   \<and> KoCharElectraTokenizer_init
        \<lparr>files = [''vocab.txt'' \<mapsto> File False [97, LF, 98]],
         refuses_write = (\<lambda>p. None), warnings = []\<rparr>
        ''vocab.txt'' UNK SEP PAD CLS MASK = Inl PermissionError
   \<and> KoCharElectraTokenizer_init
        \<lparr>files = [''vocab.txt'' \<mapsto> File True [97, LF, 56575, LF]],
         refuses_write = (\<lambda>p. None), warnings = []\<rparr>
        ''vocab.txt'' UNK SEP PAD CLS MASK = Inl UnicodeDecodeError
   \<and> KoCharElectraTokenizer_init plain_world ''vocab.txt'' UNK SEP PAD CLS MASK =
        Inr plain_tokenizer"
proof -
  let ?unreadable = "\<lparr>files = [''vocab.txt'' \<mapsto> File False [97, LF, 98]],
      refuses_write = (\<lambda>p. None), warnings = []\<rparr>"
  let ?binary = "\<lparr>files = [''vocab.txt'' \<mapsto> File True [97, LF, 56575, LF]],
      refuses_write = (\<lambda>p. None), warnings = []\<rparr>"
  have a: "\<not> isfile plain_world ''missing.txt''"
    by (simp add: isfile_def plain_world_def)
  have b: "files ?unreadable ''vocab.txt'' = Some (File False [97, LF, 98])" by simp
  have c: "files ?binary ''vocab.txt'' = Some (File True [97, LF, 56575, LF]) \<and>
      list_ex is_surrogate [97, LF, 56575, LF]" by (simp add: is_surrogate_def)
  have d: "files plain_world ''vocab.txt'' = Some (File True [97, LF, 98]) \<and>
      \<not> list_ex is_surrogate [97, LF, 98]"
    by (simp add: plain_world_def is_surrogate_def)
  have v: "vocab_of_lines (readlines [97, LF, 98]) = [([97], 0), ([98], 1)]"
    by (simp add: readlines_def vocab_of_lines_def enumerate_eq_zip rstrip_newline_def upt_rec)
  from init_outcome [where w = plain_world and vocab_file = "''missing.txt''" and unk = UNK
      and sep = SEP and pad = PAD and cls = CLS and msk = MASK] a
  have 1: "KoCharElectraTokenizer_init plain_world ''missing.txt'' UNK SEP PAD CLS MASK =
      Inl ValueError" by blast
  from init_outcome [where w = ?unreadable and vocab_file = "''vocab.txt''"
      and content = "[97, LF, 98]" and unk = UNK and sep = SEP and pad = PAD and cls = CLS
      and msk = MASK] b
  have 2: "KoCharElectraTokenizer_init ?unreadable ''vocab.txt'' UNK SEP PAD CLS MASK =
      Inl PermissionError" by blast
  from init_outcome [where w = ?binary and vocab_file = "''vocab.txt''"
      and content = "[97, LF, 56575, LF]" and unk = UNK and sep = SEP and pad = PAD
      and cls = CLS and msk = MASK] c
  have 3: "KoCharElectraTokenizer_init ?binary ''vocab.txt'' UNK SEP PAD CLS MASK =
      Inl UnicodeDecodeError" by blast
  from init_outcome [where w = plain_world and vocab_file = "''vocab.txt''"
      and content = "[97, LF, 98]" and unk = UNK and sep = SEP and pad = PAD and cls = CLS
      and msk = MASK] d
  have 4: "KoCharElectraTokenizer_init plain_world ''vocab.txt'' UNK SEP PAD CLS MASK =
        Inr \<lparr>vocab = vocab_of_lines (readlines [97, LF, 98]),
             ids_to_tokens = map (\<lambda>(tok, ids). (ids, tok)) (vocab_of_lines (readlines [97, LF, 98])),
             unk_token = UNK, sep_token = SEP, pad_token = PAD, cls_token = CLS,
             mask_token = MASK\<rparr>" by blast
  from 4 have 5: "KoCharElectraTokenizer_init plain_world ''vocab.txt'' UNK SEP PAD CLS MASK =
        Inr plain_tokenizer" unfolding v by (simp add: plain_tokenizer_def)
  from 1 2 3 5 show ?thesis by blast
qed

section \<open>Decoding an encoding\<close>

text \<open>
  C2. For a tokenizer built by the constructor and a text whose normal form has all its
  characters in the vocabulary, detokenizing the tokens of the ids of the tokens of the
  text gives the text with every run of whitespace collapsed to one space and leading
  and trailing whitespace stripped, and otherwise unchanged.
\<close>

theorem decode_encode_roundtrip:
  assumes "KoCharElectraTokenizer_init w vocab_file unk sep pad cls msk = Inr tk"
    and "\<forall>c\<in>set (collapse_runs (py_strip s)). map_of (vocab tk) [c] \<noteq> None"
  shows "convert_tokens_to_string
           (convert_ids_to_tokens tk (convert_tokens_to_ids tk (tokenize s))) =
         collapse_runs (py_strip s)"
proof -
  let ?u = "py_join [SP] (py_split s)"
  have u: "?u = collapse_runs (py_strip s)" by (rule join_split_collapse)
  have known: "\<forall>t\<in>set (tokenize s). map_of (vocab tk) t \<noteq> None"
    using assms(2) by (auto simp: tokenize_def u)
  have "convert_ids_to_tokens tk (convert_tokens_to_ids tk (tokenize s)) =
      map (\<lambda>t. if map_of (vocab tk) t = None then unk_token tk else t) (tokenize s)"
    by (simp add: convert_ids_to_tokens_def convert_tokens_to_ids_def
        roundtrip_token [OF assms(1)])
  also have "\<dots> = tokenize s" using known by (rule map_known_id)
  finally have rt: "convert_ids_to_tokens tk (convert_tokens_to_ids tk (tokenize s)) =
      map (\<lambda>c. [c]) ?u" by (simp add: tokenize_def)
  have "convert_tokens_to_string (map (\<lambda>c. [c]) ?u) = py_strip ?u"
    by (simp add: convert_tokens_to_string_def py_join_empty_sep concat_singletons)
  also have "\<dots> = ?u" by (rule py_strip_id [OF join_split_ends])
  finally show ?thesis unfolding rt u .
qed

text \<open>
  C2, witness: the example vocabulary and a text with leading, doubled and trailing
  whitespace.
\<close>

theorem decode_encode_roundtrip_witness:
  "list_all (\<lambda>c. map_of (vocab example_tokenizer) [c] \<noteq> None) [44032, SP, 45208]
   \<and> collapse_runs (py_strip [SP, 44032, 9, SP, 45208, LF]) = [44032, SP, 45208]
   \<and> convert_tokens_to_string
       (convert_ids_to_tokens example_tokenizer
         (convert_tokens_to_ids example_tokenizer (tokenize [SP, 44032, 9, SP, 45208, LF]))) =
     [44032, SP, 45208]"
proof -
  have c: "collapse_runs (py_strip [SP, 44032, 9, SP, 45208, LF]) = [44032, SP, 45208]"
    by (simp add: py_strip_def isspace_def)
  have v: "\<forall>c\<in>set (collapse_runs (py_strip [SP, 44032, 9, SP, 45208, LF])).
      map_of (vocab example_tokenizer) [c] \<noteq> None"
    unfolding c by (simp add: example_tokenizer_def)
  from decode_encode_roundtrip [OF init_example v] c v show ?thesis
    by (simp add: list_all_iff)
qed

section \<open>Duplicate tokens\<close>

text \<open>
  C3. When the vocabulary file has the same token on lines \<open>i < j\<close>, no token of the
  loaded vocabulary has the id \<open>i\<close> and the reverse mapping has no entry for \<open>i\<close>; and
  when \<open>j\<close> is the last line with that token, the token has the id \<open>j\<close> and the reverse
  mapping sends \<open>j\<close> back to the token.
\<close>

theorem duplicate_token_last_wins:
  assumes "KoCharElectraTokenizer_init w vocab_file unk sep pad cls msk = Inr tk"
    and "files w vocab_file = Some (File r content)"
    and "toks = map rstrip_newline (readlines content)"
    and "i < j" and "j < length toks" and "toks ! i = t" and "toks ! j = t"
  shows "(\<forall>t'. map_of (vocab tk) t' \<noteq> Some (int i))
    \<and> map_of (ids_to_tokens tk) (int i) = None
    \<and> ((\<forall>m. j < m \<and> m < length toks \<longrightarrow> toks ! m \<noteq> t) \<longrightarrow>
          map_of (vocab tk) t = Some (int j) \<and> map_of (ids_to_tokens tk) (int j) = Some t)"
proof -
  let ?xs = "readlines content"
  from init_Inr [OF assms(1)] assms(2) have v: "vocab tk = vocab_of_lines ?xs" by auto
  note inv = init_inverse [OF assms(1)]
  have len: "length toks = length ?xs" by (simp add: assms(3))
  have nth: "toks ! m = rstrip_newline (?xs ! m)" if "m < length ?xs" for m
    using that by (simp add: assms(3))
  have no_i: "map_of (vocab tk) t' \<noteq> Some (int i)" for t'
  proof
    assume "map_of (vocab tk) t' = Some (int i)"
    then obtain k where k: "k < length ?xs" "int i = int k" "rstrip_newline (?xs ! k) = t'"
      and last: "\<forall>m. k < m \<and> m < length ?xs \<longrightarrow> rstrip_newline (?xs ! m) \<noteq> t'"
      unfolding v map_of_vocab_of_lines by blast
    from k(2) have ki: "k = i" by simp
    from assms(4,5) have il: "i < length ?xs" by (simp add: len)
    from k(3) ki nth [OF il] assms(6) have "t' = t" by simp
    moreover from last ki assms(4,5) len have "rstrip_newline (?xs ! j) \<noteq> t'" by simp
    moreover from assms(5,7) len nth [of j] have "rstrip_newline (?xs ! j) = t" by simp
    ultimately show False by simp
  qed
  have none: "map_of (ids_to_tokens tk) (int i) = None"
  proof (cases "map_of (ids_to_tokens tk) (int i)")
    case None
    then show ?thesis .
  next
    case (Some t')
    then have "map_of (vocab tk) t' = Some (int i)" by (simp only: inv)
    with no_i show ?thesis by blast
  qed
  have last_wins: "map_of (vocab tk) t = Some (int j) \<and> map_of (ids_to_tokens tk) (int j) = Some t"
    if a: "\<forall>m. j < m \<and> m < length toks \<longrightarrow> toks ! m \<noteq> t"
  proof -
    have "\<forall>m. j < m \<and> m < length ?xs \<longrightarrow> rstrip_newline (?xs ! m) \<noteq> t"
      using a nth by (simp add: len)
    moreover from assms(5,7) len nth [of j] have "rstrip_newline (?xs ! j) = t" by simp
    ultimately have "map_of (vocab tk) t = Some (int j)"
      unfolding v map_of_vocab_of_lines using assms(5) len by (intro exI [of _ j]) simp
    then show ?thesis by (simp add: inv)
  qed
  from no_i none last_wins show ?thesis by blast
qed

text \<open>
  C3, witness: the file \<open>a\nb\na\n\<close>, where \<open>a\<close> is on lines 0 and 2.
\<close>

theorem duplicate_token_last_wins_witness:
  "KoCharElectraTokenizer_init duplicate_world ''vocab.txt'' UNK SEP PAD CLS MASK =
     Inr duplicate_tokenizer
   \<and> map rstrip_newline (readlines [97, LF, 98, LF, 97, LF]) = [[97], [98], [97]]
   \<and> map_of (vocab duplicate_tokenizer) [97] = Some 2
   \<and> map_of (vocab duplicate_tokenizer) [98] \<noteq> Some 0
   \<and> map_of (ids_to_tokens duplicate_tokenizer) 2 = Some [97]
   \<and> map_of (ids_to_tokens duplicate_tokenizer) 0 = None"
proof -
  have f: "files duplicate_world ''vocab.txt'' = Some (File True [97, LF, 98, LF, 97, LF])"
    by (simp add: duplicate_world_def)
  have t: "[[97], [98], [97]] = map rstrip_newline (readlines [97, LF, 98, LF, 97, LF])"
    by (simp add: readlines_def rstrip_newline_def)
  have l: "\<forall>m. 2 < m \<and> m < length [[97], [98], [97::nat]] \<longrightarrow> [[97], [98], [97]] ! m \<noteq> [97::nat]"
    by simp
  have th: "(\<forall>t'. map_of (vocab duplicate_tokenizer) t' \<noteq> Some (int 0))
    \<and> map_of (ids_to_tokens duplicate_tokenizer) (int 0) = None
    \<and> ((\<forall>m. 2 < m \<and> m < length [[97], [98], [97::nat]] \<longrightarrow>
            [[97], [98], [97]] ! m \<noteq> [97::nat]) \<longrightarrow>
          map_of (vocab duplicate_tokenizer) [97] = Some (int 2) \<and>
          map_of (ids_to_tokens duplicate_tokenizer) (int 2) = Some [97])"
    by (rule duplicate_token_last_wins [OF init_duplicate f t, of 0 2 "[97]"]) simp_all
  from th l have 1: "map_of (vocab duplicate_tokenizer) [97] = Some 2
      \<and> map_of (ids_to_tokens duplicate_tokenizer) 2 = Some [97]" by simp
  from th have 2: "map_of (vocab duplicate_tokenizer) [98] \<noteq> Some 0
      \<and> map_of (ids_to_tokens duplicate_tokenizer) 0 = None" by simp
  from 1 2 init_duplicate t [symmetric] show ?thesis by blast
qed

section \<open>Saving\<close>

text \<open>
  C4 (as stated, refuted). The claim says that saving right after loading reproduces the
  file whenever the loaded ids are contiguous from 0. The file \<open>a\nb\<close> loads with the
  ids 0 and 1, and saving writes \<open>a\nb\n\<close>: every token is written with a line feed
  after it, also the last one.
\<close>

theorem save_after_load_counterexample:
  "KoCharElectraTokenizer_init plain_world ''vocab.txt'' UNK SEP PAD CLS MASK = Inr plain_tokenizer
   \<and> files plain_world ''vocab.txt'' = Some (File True [97, LF, 98])
   \<and> ids_contiguous (vocab plain_tokenizer)
   \<and> saved_file (save_vocabulary plain_tokenizer ''copy.txt'' plain_world) =
       Inr (''copy.txt'', Some (File True [97, LF, 98, LF]), [])
   \<and> [97, LF, 98, LF] \<noteq> [97, LF, 98 :: nat]"
proof -
  have 1: "KoCharElectraTokenizer_init plain_world ''vocab.txt'' UNK SEP PAD CLS MASK =
      Inr plain_tokenizer"
    by (rule init_plain)
  have 2: "files plain_world ''vocab.txt'' = Some (File True [97, LF, 98])"
    by (simp add: plain_world_def)
  have 3: "ids_contiguous (vocab plain_tokenizer)"
    by (simp add: ids_contiguous_def plain_tokenizer_def upt_rec)
  have 4: "saved_file (save_vocabulary plain_tokenizer ''copy.txt'' plain_world) =
       Inr (''copy.txt'', Some (File True [97, LF, 98, LF]), [])"
    by (simp add: saved_file_def save_vocabulary_def isdir_def isfile_def open_write_def
        dirname_def plain_world_def plain_tokenizer_def is_surrogate_def Let_def)
  from 1 2 3 4 show ?thesis by simp
qed

text \<open>
  C4 (amended). Let the target be \<open>vocab.txt\<close> inside the given directory, or the given
  path when it is no directory. When the target cannot be opened for writing (it is the
  empty path or a directory, its parent directory is missing, or the operating system
  refuses it, as it does for a missing permission), saving raises that error and
  changes nothing. When it can be opened and every token can be encoded, saving returns the
  target, and the file there holds every token of the vocabulary followed by a line
  feed, in ascending id order; warnings are added to the log exactly when the ids are
  not contiguous from 0, and the write goes on all the same. For a tokenizer built from a
  newline-terminated file whose loaded ids are contiguous from 0, saved to a target that
  can be opened, the text written is the text of that file and nothing is logged.
\<close>

theorem save_vocabulary_outcome:
  assumes "vocab_file =
      (if isdir w vocab_path then path_join vocab_path ''vocab.txt'' else vocab_path)"
    and "r = (case files w vocab_file of Some (File r t) \<Rightarrow> r | _ \<Rightarrow> True)"
  shows "(open_write w vocab_file = Some e \<longrightarrow> save_vocabulary tk vocab_path w = (Inl e, w))
    \<and> (open_write w vocab_file = None \<and> encodable (vocab tk) \<longrightarrow>
        (\<exists>n. saved_file (save_vocabulary tk vocab_path w) =
            Inr (vocab_file,
                 Some (File r (concat (map (\<lambda>kv. fst kv @ [LF]) (sort_key snd (vocab tk))))),
                 warnings w @ replicate n vocab_file)
          \<and> (n = 0 \<longleftrightarrow> ids_contiguous (vocab tk))))
    \<and> sorted (map snd (sort_key snd (vocab tk)))
    \<and> mset (sort_key snd (vocab tk)) = mset (vocab tk)
    \<and> (open_write w vocab_file = None \<and>
        KoCharElectraTokenizer_init w0 src unk sep pad cls msk = Inr tk \<and>
        files w0 src = Some (File True content) \<and> newline_terminated content \<and>
        ids_contiguous (vocab tk) \<longrightarrow>
          saved_file (save_vocabulary tk vocab_path w) =
            Inr (vocab_file, Some (File r content), warnings w))"
proof -
  let ?items = "sort_key snd (vocab tk)"
  let ?text = "concat (map (\<lambda>kv. fst kv @ [LF]) ?items)"
  have refused: "save_vocabulary tk vocab_path w = (Inl e, w)"
    if "open_write w vocab_file = Some e"
    by (rule saved_file_refused [OF assms(1) that])
  have written: "\<exists>n. saved_file (save_vocabulary tk vocab_path w) =
            Inr (vocab_file, Some (File r ?text), warnings w @ replicate n vocab_file)
          \<and> (n = 0 \<longleftrightarrow> ids_contiguous (vocab tk))"
    if opened: "open_write w vocab_file = None" and enc: "encodable (vocab tk)"
  proof -
    from enc have "\<forall>kv\<in>set ?items. \<not> list_ex is_surrogate (fst kv)"
      by (simp add: encodable_def list_all_iff)
    from write_tokens_encodable [OF this, of vocab_file 0 "[]" "warnings w"]
    obtain n where wt: "write_tokens vocab_file 0 [] (warnings w) ?items =
        (None, [] @ ?text, warnings w @ replicate n vocab_file)"
      and n0: "n = 0 \<longleftrightarrow> map snd ?items = map (\<lambda>k. 0 + int k) [0..<length ?items]"
      by blast
    from n0 have n0': "n = 0 \<longleftrightarrow> ids_contiguous (vocab tk)"
      by (simp add: ids_contiguous_def)
    from wt have wt': "write_tokens vocab_file 0 [] (warnings w) ?items =
        (None, ?text, warnings w @ replicate n vocab_file)" by simp
    have "saved_file (save_vocabulary tk vocab_path w) =
        Inr (vocab_file, Some (File r ?text), warnings w @ replicate n vocab_file)"
      unfolding assms(2) by (rule saved_file_save [OF assms(1) opened wt'])
    with n0' show ?thesis by blast
  qed
  have b: "sorted (map snd ?items)" by (rule sorted_sort_key)
  have c: "mset ?items = mset (vocab tk)" by simp
  have d: "saved_file (save_vocabulary tk vocab_path w) =
            Inr (vocab_file, Some (File r content), warnings w)"
    if h: "open_write w vocab_file = None \<and>
        KoCharElectraTokenizer_init w0 src unk sep pad cls msk = Inr tk \<and>
        files w0 src = Some (File True content) \<and> newline_terminated content \<and>
        ids_contiguous (vocab tk)"
  proof -
    let ?xs = "readlines content"
    from h init_Inr [of w0 src unk sep pad cls msk tk]
    have v: "vocab tk = vocab_of_lines ?xs" and dec: "\<not> list_ex is_surrogate content" by auto
    have enc: "encodable (vocab tk)" unfolding v by (rule encodable_vocab_of_lines [OF dec])
    from h have opened: "open_write w vocab_file = None" by simp
    from h have cont: "ids_contiguous (vocab_of_lines ?xs)" by (simp add: v)
    from h have nt: "newline_terminated content" by simp
    have dist: "distinct (map rstrip_newline ?xs)" by (rule contiguous_distinct [OF cont])
    have items: "?items = zip (map rstrip_newline ?xs) (map int [0..<length ?xs])"
      unfolding v by (rule sort_contiguous_vocab [OF dist])
    have "map fst ?items = map rstrip_newline ?xs" unfolding items by simp
    then have "map (\<lambda>t. t @ [LF]) (map fst ?items) =
        map (\<lambda>t. t @ [LF]) (map rstrip_newline ?xs)" by (rule arg_cong)
    then have "map (\<lambda>kv. fst kv @ [LF]) ?items = map (\<lambda>l. rstrip_newline l @ [LF]) ?xs"
      by (simp add: comp_def)
    then have t: "?text = content"
      by (simp only: readlines_terminated [OF nt])
    from written [OF opened enc] obtain n where
      sv: "saved_file (save_vocabulary tk vocab_path w) =
            Inr (vocab_file, Some (File r ?text), warnings w @ replicate n vocab_file)"
      and n0: "n = 0 \<longleftrightarrow> ids_contiguous (vocab tk)" by blast
    from h n0 have "n = 0" by simp
    with sv show ?thesis unfolding t by simp
  qed
  from refused written b c d show ?thesis by blast
qed

text \<open>
  C4, witness: the example vocabulary saved to a new path; the vocabulary with the ids 2
  and 1 saved into a directory, with one warning; and three targets that cannot be
  opened: one under a missing directory, the empty path, and one that may not be
  written.
\<close>

theorem save_vocabulary_outcome_witness:
  "KoCharElectraTokenizer_init example_world ''vocab.txt'' UNK SEP PAD CLS MASK =
     Inr example_tokenizer
   \<and> newline_terminated example_vocab_text
   \<and> ids_contiguous (vocab example_tokenizer)
   \<and> open_write example_world ''copy.txt'' = None
   \<and> saved_file (save_vocabulary example_tokenizer ''copy.txt'' example_world) =
       Inr (''copy.txt'', Some (File True example_vocab_text), [])
   \<and> saved_file (save_vocabulary duplicate_tokenizer ''out'' dir_world) =
       Inr (''out/vocab.txt'', Some (File True [98, LF, 97, LF]), [''out/vocab.txt''])
   \<and> save_vocabulary example_tokenizer ''nodir/x.txt'' dir_world =
       (Inl FileNotFoundError, dir_world)
   \<and> save_vocabulary example_tokenizer [] dir_world = (Inl FileNotFoundError, dir_world)
   \<and> save_vocabulary example_tokenizer ''locked.txt'' dir_world =
       (Inl PermissionError, dir_world)"
proof -
  have f: "files example_world ''vocab.txt'' = Some (File True example_vocab_text)"
    by (simp add: example_world_def)
  have nt: "newline_terminated example_vocab_text"
    by (simp add: newline_terminated_def example_vocab_text_def
        PAD_def UNK_def CLS_def SEP_def MASK_def)
  have c: "ids_contiguous (vocab example_tokenizer)"
    by (simp add: ids_contiguous_def example_tokenizer_def upt_rec)
  have p: "''copy.txt'' =
      (if isdir example_world ''copy.txt'' then path_join ''copy.txt'' ''vocab.txt''
       else ''copy.txt'')"
    by (simp add: isdir_def example_world_def)
  have ow: "open_write example_world ''copy.txt'' = None"
    by (simp add: open_write_def dirname_def isdir_def isfile_def Let_def example_world_def)
  have r: "True = (case files example_world ''copy.txt'' of Some (File r t) \<Rightarrow> r | _ \<Rightarrow> True)"
    by (simp add: example_world_def)
  have w: "warnings example_world = []" by (simp add: example_world_def)
  from save_vocabulary_outcome [OF p r, where tk = example_tokenizer and ?w0.0 = example_world
      and src = "''vocab.txt''" and unk = UNK and sep = SEP and pad = PAD and cls = CLS
      and msk = MASK and content = example_vocab_text] ow init_example f nt c
  have 1: "saved_file (save_vocabulary example_tokenizer ''copy.txt'' example_world) =
       Inr (''copy.txt'', Some (File True example_vocab_text), [])"
    unfolding w by blast
  have 2: "saved_file (save_vocabulary duplicate_tokenizer ''out'' dir_world) =
       Inr (''out/vocab.txt'', Some (File True [98, LF, 97, LF]), [''out/vocab.txt''])"
    by (simp add: saved_file_def save_vocabulary_def isdir_def isfile_def open_write_def
        dirname_def dir_world_def path_join_def duplicate_tokenizer_def is_surrogate_def
        Let_def)
  have p3: "''nodir/x.txt'' =
      (if isdir dir_world ''nodir/x.txt'' then path_join ''nodir/x.txt'' ''vocab.txt''
       else ''nodir/x.txt'')"
    by (simp add: isdir_def dir_world_def)
  have o3: "open_write dir_world ''nodir/x.txt'' = Some FileNotFoundError"
    by (simp add: open_write_def dirname_def isdir_def isfile_def Let_def dir_world_def)
  from save_vocabulary_outcome [OF p3 refl, where tk = example_tokenizer
      and e = FileNotFoundError] o3
  have 3: "save_vocabulary example_tokenizer ''nodir/x.txt'' dir_world =
       (Inl FileNotFoundError, dir_world)" by blast
  have p4: "[] = (if isdir dir_world [] then path_join [] ''vocab.txt'' else [])"
    by (simp add: isdir_def dir_world_def)
  have o4: "open_write dir_world [] = Some FileNotFoundError"
    by (simp add: open_write_def Let_def)
  from save_vocabulary_outcome [OF p4 refl, where tk = example_tokenizer
      and e = FileNotFoundError] o4
  have 4: "save_vocabulary example_tokenizer [] dir_world = (Inl FileNotFoundError, dir_world)"
    by blast
  have p5: "''locked.txt'' =
      (if isdir dir_world ''locked.txt'' then path_join ''locked.txt'' ''vocab.txt''
       else ''locked.txt'')"
    by (simp add: isdir_def dir_world_def)
  have o5: "open_write dir_world ''locked.txt'' = Some PermissionError"
    by (simp add: open_write_def dirname_def isdir_def isfile_def Let_def dir_world_def)
  from save_vocabulary_outcome [OF p5 refl, where tk = example_tokenizer
      and e = PermissionError] o5
  have 5: "save_vocabulary example_tokenizer ''locked.txt'' dir_world =
       (Inl PermissionError, dir_world)" by blast
  from init_example nt c ow 1 2 3 4 5 show ?thesis by blast
qed

section \<open>Tokens and ids\<close>

text \<open>
  C5. For a tokenizer built by the constructor, converting tokens to ids and back gives
  each token of the vocabulary back and the unknown-token string for every other token;
  a sequence of tokens of the vocabulary comes back unchanged. A token outside the
  vocabulary gets the id of the unknown token, and an id without a token gets the
  unknown-token string. Both conversions are total functions: they have no error result.
\<close>

theorem tokens_ids_roundtrip:
  assumes "KoCharElectraTokenizer_init w vocab_file unk sep pad cls msk = Inr tk"
  shows "convert_ids_to_tokens tk (convert_tokens_to_ids tk X) =
           map (\<lambda>t. if map_of (vocab tk) t = None then unk_token tk else t) X
    \<and> ((\<forall>t\<in>set X. map_of (vocab tk) t \<noteq> None) \<longrightarrow>
          convert_ids_to_tokens tk (convert_tokens_to_ids tk X) = X)
    \<and> (map_of (vocab tk) t = None \<longrightarrow>
          convert_token_to_id tk t = convert_token_to_id tk (unk_token tk) \<and>
          convert_id_to_token tk (convert_token_to_id tk t) = unk_token tk)
    \<and> (map_of (ids_to_tokens tk) i = None \<longrightarrow> convert_id_to_token tk (Some i) = unk_token tk)
    \<and> convert_id_to_token tk None = unk_token tk"
proof -
  note rt = roundtrip_token [OF assms]
  have a: "convert_ids_to_tokens tk (convert_tokens_to_ids tk X) =
           map (\<lambda>t. if map_of (vocab tk) t = None then unk_token tk else t) X"
    by (simp add: convert_ids_to_tokens_def convert_tokens_to_ids_def rt)
  have b: "convert_ids_to_tokens tk (convert_tokens_to_ids tk X) = X"
    if "\<forall>t\<in>set X. map_of (vocab tk) t \<noteq> None"
    unfolding a using that by (induction X) auto
  have c: "convert_token_to_id tk t = convert_token_to_id tk (unk_token tk) \<and>
          convert_id_to_token tk (convert_token_to_id tk t) = unk_token tk"
    if "map_of (vocab tk) t = None"
    using that rt [of t] by (simp add: convert_token_to_id_def split: option.splits)
  have d: "convert_id_to_token tk (Some i) = unk_token tk" if "map_of (ids_to_tokens tk) i = None"
    using that by (simp add: convert_id_to_token_def)
  have e: "convert_id_to_token tk None = unk_token tk"
    by (simp add: convert_id_to_token_def)
  from a b c d e show ?thesis by blast
qed

text \<open>
  C5, witness: the example vocabulary, the tokens of the text U+AC00, space, U+B098, the
  token \<open>a\<close> outside the vocabulary and the id 99.
\<close>

theorem tokens_ids_roundtrip_witness:
  "convert_ids_to_tokens example_tokenizer
     (convert_tokens_to_ids example_tokenizer [[44032], [SP], [45208]]) =
     [[44032], [SP], [45208]]
   \<and> convert_tokens_to_ids example_tokenizer [[44032], [SP], [45208]] = [Some 5, Some 7, Some 6]
   \<and> convert_ids_to_tokens example_tokenizer
       (convert_tokens_to_ids example_tokenizer [[44032], [97]]) = [[44032], UNK]
   \<and> convert_token_to_id example_tokenizer [97] = Some 1
   \<and> convert_id_to_token example_tokenizer (Some 99) = UNK"
proof -
  have v: "\<forall>t\<in>set [[44032], [SP], [45208]]. map_of (vocab example_tokenizer) t \<noteq> None"
    by (simp add: example_tokenizer_def)
  have n: "map_of (vocab example_tokenizer) [97] = None"
    by (simp add: example_tokenizer_def PAD_def UNK_def CLS_def SEP_def MASK_def)
  have m: "map_of (ids_to_tokens example_tokenizer) 99 = None"
    by (simp add: example_tokenizer_def)
  have u: "unk_token example_tokenizer = UNK" by (simp add: example_tokenizer_def)
  have k: "map_of (vocab example_tokenizer) [44032] \<noteq> None"
    by (simp add: example_tokenizer_def)
  have ids: "convert_tokens_to_ids example_tokenizer [[44032], [SP], [45208]] =
      [Some 5, Some 7, Some 6]"
    by (simp add: convert_tokens_to_ids_def convert_token_to_id_def example_tokenizer_def
        PAD_def UNK_def CLS_def SEP_def MASK_def)
  have unk_id: "convert_token_to_id example_tokenizer UNK = Some 1"
    by (simp add: convert_token_to_id_def example_tokenizer_def
        PAD_def UNK_def CLS_def SEP_def MASK_def)
  note th = tokens_ids_roundtrip [OF init_example, of "[[44032], [SP], [45208]]" "[97]" 99]
  from th v have 1: "convert_ids_to_tokens example_tokenizer
     (convert_tokens_to_ids example_tokenizer [[44032], [SP], [45208]]) =
     [[44032], [SP], [45208]]" by blast
  from th n have "convert_token_to_id example_tokenizer [97] =
      convert_token_to_id example_tokenizer (unk_token example_tokenizer)" by blast
  then have 2: "convert_token_to_id example_tokenizer [97] = Some 1" by (simp only: u unk_id)
  from th m have "convert_id_to_token example_tokenizer (Some 99) = unk_token example_tokenizer"
    by blast
  then have 3: "convert_id_to_token example_tokenizer (Some 99) = UNK" by (simp only: u)
  have "convert_ids_to_tokens example_tokenizer
       (convert_tokens_to_ids example_tokenizer [[44032], [97]]) =
      map (\<lambda>t. if map_of (vocab example_tokenizer) t = None
                then unk_token example_tokenizer else t) [[44032], [97]]"
    using tokens_ids_roundtrip [OF init_example, of "[[44032], [97]]" "[97]" 99] by blast
  with n k have 4: "convert_ids_to_tokens example_tokenizer
       (convert_tokens_to_ids example_tokenizer [[44032], [97]]) = [[44032], UNK]"
    by (auto simp: u)
  from 1 2 3 4 ids show ?thesis by blast
qed

section \<open>Sequence assembly\<close>

text \<open>
  C6. Without special tokens in the input, the mask has the length of the assembled
  input, a 1 at position 0 and at each separator position (\<open>len(A) + 1\<close>, and the last
  position for a pair) and 0 elsewhere; those positions hold the classifier id and the
  separator id in the assembled input; and the mask depends on the lengths of the
  sequences only.
\<close>

theorem special_tokens_mask_analytic:
  "get_special_tokens_mask tk A None False =
     Inr (map (\<lambda>i. if i = 0 \<or> i = length A + 1 then 1 else 0)
            [0..<length (build_inputs_with_special_tokens tk A None)])
   \<and> get_special_tokens_mask tk A (Some B) False =
     Inr (map (\<lambda>i. if i = 0 \<or> i = length A + 1 \<or> i = length A + length B + 2 then 1 else 0)
            [0..<length (build_inputs_with_special_tokens tk A (Some B))])
   \<and> build_inputs_with_special_tokens tk A None ! 0 = cls_token_id tk
   \<and> build_inputs_with_special_tokens tk A None ! (length A + 1) = sep_token_id tk
   \<and> build_inputs_with_special_tokens tk A (Some B) ! 0 = cls_token_id tk
   \<and> build_inputs_with_special_tokens tk A (Some B) ! (length A + 1) = sep_token_id tk
   \<and> build_inputs_with_special_tokens tk A (Some B) ! (length A + length B + 2) = sep_token_id tk
   \<and> (length A' = length A \<longrightarrow>
        get_special_tokens_mask tk' A' None False = get_special_tokens_mask tk A None False)
   \<and> (length A' = length A \<and> length B' = length B \<longrightarrow>
        get_special_tokens_mask tk' A' (Some B') False =
        get_special_tokens_mask tk A (Some B) False)"
proof -
  have b1: "build_inputs_with_special_tokens tk A None = cls_token_id tk # A @ [sep_token_id tk]"
    by (simp add: build_inputs_with_special_tokens_def)
  have b2: "build_inputs_with_special_tokens tk A (Some B) =
      cls_token_id tk # A @ sep_token_id tk # B @ [sep_token_id tk]"
    by (simp add: build_inputs_with_special_tokens_def)
  have l1: "length (build_inputs_with_special_tokens tk A None) = length A + 2"
    by (simp add: b1)
  have l2: "length (build_inputs_with_special_tokens tk A (Some B)) = length A + length B + 3"
    by (simp add: b2)
  have m1: "get_special_tokens_mask t X None False = Inr (1 # replicate (length X) 0 @ [1])"
    for t X
    by (simp add: get_special_tokens_mask_def)
  have m2: "get_special_tokens_mask t X (Some Y) False =
      Inr (1 # replicate (length X) 0 @ 1 # replicate (length Y) 0 @ [1])" for t X Y
    by (simp add: get_special_tokens_mask_def)
  have n1: "build_inputs_with_special_tokens tk A None ! (length A + 1) = sep_token_id tk"
    by (simp add: b1 nth_append)
  have n2: "build_inputs_with_special_tokens tk A (Some B) ! (length A + 1) = sep_token_id tk"
    by (simp add: b2 nth_append)
  have n3: "build_inputs_with_special_tokens tk A (Some B) ! (length A + length B + 2) =
      sep_token_id tk"
    by (simp add: b2 nth_append nth_Cons')
  have z1: "build_inputs_with_special_tokens tk A None ! 0 = cls_token_id tk"
    by (simp add: b1)
  have z2: "build_inputs_with_special_tokens tk A (Some B) ! 0 = cls_token_id tk"
    by (simp add: b2)
  have p1: "get_special_tokens_mask tk A None False =
     Inr (map (\<lambda>i. if i = 0 \<or> i = length A + 1 then 1 else 0)
            [0..<length (build_inputs_with_special_tokens tk A None)])"
    unfolding l1 m1 mask_single_nth ..
  have p2: "get_special_tokens_mask tk A (Some B) False =
     Inr (map (\<lambda>i. if i = 0 \<or> i = length A + 1 \<or> i = length A + length B + 2 then 1 else 0)
            [0..<length (build_inputs_with_special_tokens tk A (Some B))])"
    unfolding l2 m2 mask_pair_nth ..
  have i1: "get_special_tokens_mask tk' A' None False = get_special_tokens_mask tk A None False"
    if "length A' = length A"
    using that by (simp add: m1)
  have i2: "get_special_tokens_mask tk' A' (Some B') False =
      get_special_tokens_mask tk A (Some B) False"
    if "length A' = length A \<and> length B' = length B"
    using that by (simp add: m2)
  from p1 p2 z1 n1 z2 n2 n3 i1 i2 show ?thesis by blast
qed

text \<open>
  C6, witness: the example of the specification, the ids 5, 7, 6, alone and paired with
  the id 6, and other sequences of the same lengths.
\<close>

theorem special_tokens_mask_analytic_witness:
  "get_special_tokens_mask example_tokenizer [Some 5, Some 7, Some 6] None False =
     Inr [1, 0, 0, 0, 1]
   \<and> build_inputs_with_special_tokens example_tokenizer [Some 5, Some 7, Some 6] None =
     [Some 2, Some 5, Some 7, Some 6, Some 3]
   \<and> get_special_tokens_mask example_tokenizer [Some 5, Some 7, Some 6] (Some [Some 6]) False =
     Inr [1, 0, 0, 0, 1, 0, 1]
   \<and> get_special_tokens_mask plain_tokenizer [Some 2, None, Some 3] None False =
     get_special_tokens_mask example_tokenizer [Some 5, Some 7, Some 6] None False
   \<and> get_special_tokens_mask plain_tokenizer [Some 2, None, Some 3] (Some [Some 3]) False =
     get_special_tokens_mask example_tokenizer [Some 5, Some 7, Some 6] (Some [Some 6]) False"
proof -
  note th = special_tokens_mask_analytic [of example_tokenizer "[Some 5, Some 7, Some 6]"
      "[Some 6]" "[Some 2, None, Some 3]" plain_tokenizer "[Some 3]"]
  have b: "build_inputs_with_special_tokens example_tokenizer [Some 5, Some 7, Some 6] None =
     [Some 2, Some 5, Some 7, Some 6, Some 3]"
    by (simp add: build_inputs_with_special_tokens_def example_ids)
  have l: "length [Some 2, None, Some (3::int)] = length [Some 5, Some 7, Some (6::int)]"
    by simp
  have l2: "length [Some 2, None, Some (3::int)] = length [Some 5, Some 7, Some (6::int)] \<and>
      length [Some (3::int)] = length [Some (6::int)]" by simp
  from th have 1: "get_special_tokens_mask example_tokenizer [Some 5, Some 7, Some 6] None False =
     Inr [1, 0, 0, 0, 1]"
    by (simp add: build_inputs_with_special_tokens_def upt_rec)
  from th have 2: "get_special_tokens_mask example_tokenizer [Some 5, Some 7, Some 6]
      (Some [Some 6]) False = Inr [1, 0, 0, 0, 1, 0, 1]"
    by (simp add: build_inputs_with_special_tokens_def upt_rec)
  from th l have 3: "get_special_tokens_mask plain_tokenizer [Some 2, None, Some 3] None False =
     get_special_tokens_mask example_tokenizer [Some 5, Some 7, Some 6] None False" by blast
  from th l2 have 4: "get_special_tokens_mask plain_tokenizer [Some 2, None, Some 3]
      (Some [Some 3]) False =
     get_special_tokens_mask example_tokenizer [Some 5, Some 7, Some 6] (Some [Some 6]) False"
    by blast
  from 1 b 2 3 4 show ?thesis by blast
qed

text \<open>
  C7. With special tokens already in the input, the mask computation fails, with
  \<open>ValueError\<close>, exactly when a second sequence is given; without one it returns, over the
  given sequence, 1 where the id is the separator id or the classifier id and 0
  elsewhere. The function takes the tokenizer and returns no tokenizer: there is no
  state for an error to change.
\<close>

theorem special_tokens_mask_already:
  "(get_special_tokens_mask tk A B True = Inl ValueError) = (B \<noteq> None)
   \<and> (\<exists>e. get_special_tokens_mask tk A B True = Inl e) = (B \<noteq> None)
   \<and> get_special_tokens_mask tk A None True =
       Inr (map (\<lambda>x. if x = sep_token_id tk \<or> x = cls_token_id tk then 1 else 0) A)
   \<and> (\<forall>m. get_special_tokens_mask tk A None True = Inr m \<longrightarrow>
        length m = length A \<and>
        (\<forall>i<length A. m ! i = (if A ! i = sep_token_id tk \<or> A ! i = cls_token_id tk
                               then 1 else 0)))"
  by (auto simp: get_special_tokens_mask_def)

text \<open>
  C7, witness: an assembled input of the example vocabulary, with and without a second
  sequence.
\<close>

theorem special_tokens_mask_already_witness:
  "get_special_tokens_mask example_tokenizer [Some 2, Some 5, Some 3, Some 6, Some 3] None True =
     Inr [1, 0, 1, 0, 1]
   \<and> get_special_tokens_mask example_tokenizer [Some 2, Some 5, Some 3] (Some [Some 6]) True =
     Inl ValueError"
proof -
  from special_tokens_mask_already [of example_tokenizer
      "[Some 2, Some 5, Some 3, Some 6, Some 3]" None]
  have 1: "get_special_tokens_mask example_tokenizer
      [Some 2, Some 5, Some 3, Some 6, Some 3] None True = Inr [1, 0, 1, 0, 1]"
    by (simp add: example_ids)
  from special_tokens_mask_already [of example_tokenizer "[Some 2, Some 5, Some 3]"
      "Some [Some 6]"]
  have 2: "get_special_tokens_mask example_tokenizer [Some 2, Some 5, Some 3]
      (Some [Some 6]) True = Inl ValueError"
    by simp
  from 1 2 show ?thesis by blast
qed

text \<open>
  C8. For one sequence the assembled input is the classifier id, the sequence and the
  separator id, of length \<open>len(A) + 2\<close>; for a pair it is the classifier id, A, the
  separator id, B and the separator id, of length \<open>len(A) + len(B) + 3\<close>.
\<close>

theorem build_inputs_layout:
  "build_inputs_with_special_tokens tk A None = cls_token_id tk # A @ [sep_token_id tk]
   \<and> length (build_inputs_with_special_tokens tk A None) = length A + 2
   \<and> build_inputs_with_special_tokens tk A (Some B) =
       cls_token_id tk # A @ sep_token_id tk # B @ [sep_token_id tk]
   \<and> length (build_inputs_with_special_tokens tk A (Some B)) = length A + length B + 3"
  by (simp add: build_inputs_with_special_tokens_def)

text \<open>
  C8, at the example of the specification: the ids 5, 7, 6 with the classifier id 2 and
  the separator id 3.
\<close>

theorem build_inputs_layout_witness:
  "build_inputs_with_special_tokens example_tokenizer [Some 5, Some 7, Some 6] None =
     [Some 2, Some 5, Some 7, Some 6, Some 3]
   \<and> build_inputs_with_special_tokens example_tokenizer [Some 5, Some 7] (Some [Some 6]) =
     [Some 2, Some 5, Some 7, Some 3, Some 6, Some 3]"
  using build_inputs_layout [of example_tokenizer "[Some 5, Some 7, Some 6]" "[]"]
    build_inputs_layout [of example_tokenizer "[Some 5, Some 7]" "[Some 6]"]
  by (simp add: example_ids)

section \<open>Segmenting\<close>

text \<open>
  C9. The segmenter returns the characters, one token each, of the normal form of the
  text: the text with every run of whitespace collapsed to one space and leading and
  trailing whitespace stripped. That is the text split on whitespace and joined with
  single spaces: every word but the last followed by a space, then the last word; as
  tokens, the characters of each word, with one space token between two words. The words are the maximal whitespace-free pieces of the text:
  none is empty, none has whitespace, and together they are the text without its
  whitespace. A text of whitespace only (the empty text included) gives no token, also
  from the whitespace helper; a text without whitespace gives one token per character
  and no space token.
\<close>

theorem tokenize_characters:
  "tokenize s = map (\<lambda>c. [c]) (collapse_runs (py_strip s))
   \<and> tokenize s = map (\<lambda>c. [c]) (py_join [SP] (py_split s))
   \<and> tokenize s = py_join [[SP]] (map (map (\<lambda>c. [c])) (py_split s))
   \<and> (py_split s \<noteq> [] \<longrightarrow>
        py_join [SP] (py_split s) =
          concat (map (\<lambda>w. w @ [SP]) (butlast (py_split s))) @ last (py_split s))
   \<and> (\<forall>w\<in>set (py_split s). w \<noteq> [] \<and> (\<forall>c\<in>set w. \<not> isspace c))
   \<and> concat (py_split s) = filter (\<lambda>c. \<not> isspace c) s
   \<and> whitespace_tokenize s = py_split s
   \<and> ((\<forall>c\<in>set s. isspace c) \<longrightarrow> tokenize s = [] \<and> whitespace_tokenize s = [])
   \<and> (s \<noteq> [] \<and> (\<forall>c\<in>set s. \<not> isspace c) \<longrightarrow>
        tokenize s = map (\<lambda>c. [c]) s \<and> [SP] \<notin> set (tokenize s))"
proof -
  have a: "tokenize s = map (\<lambda>c. [c]) (py_join [SP] (py_split s))"
    by (simp add: tokenize_def)
  have n: "tokenize s = map (\<lambda>c. [c]) (collapse_runs (py_strip s))"
    unfolding a join_split_collapse ..
  have b: "tokenize s = py_join [[SP]] (map (map (\<lambda>c. [c])) (py_split s))"
    unfolding a by (rule map_singleton_py_join)
  have j: "py_join [SP] (py_split s) =
      concat (map (\<lambda>w. w @ [SP]) (butlast (py_split s))) @ last (py_split s)"
    if "py_split s \<noteq> []"
    using that by (rule py_join_butlast)
  have c: "\<forall>w\<in>set (py_split s). w \<noteq> [] \<and> (\<forall>c\<in>set w. \<not> isspace c)"
    using py_split_words by blast
  have d: "concat (py_split s) = filter (\<lambda>c. \<not> isspace c) s" by (rule concat_py_split)
  have e: "whitespace_tokenize s = py_split s" by (rule whitespace_tokenize_split)
  have f: "tokenize s = [] \<and> whitespace_tokenize s = []" if "\<forall>c\<in>set s. isspace c"
    unfolding a e py_split_all_space [OF that] by simp
  have g: "tokenize s = map (\<lambda>c. [c]) s \<and> [SP] \<notin> set (tokenize s)"
    if "s \<noteq> [] \<and> (\<forall>c\<in>set s. \<not> isspace c)"
  proof -
    from that have ne: "s \<noteq> []" and ns: "\<forall>c\<in>set s. \<not> isspace c" by simp_all
    have t: "tokenize s = map (\<lambda>c. [c]) s" unfolding a py_split_word [OF ne ns] by simp
    from ns isspace_SP have "SP \<notin> set s" by blast
    then have "[SP] \<notin> set (map (\<lambda>c. [c]) s)" by auto
    with t show ?thesis by simp
  qed
  from n a b j c d e f g show ?thesis by blast
qed

text \<open>
  C9, witness: three words with a leading space, a doubled space, a tab and a trailing
  line feed, which give five tokens, two of them spaces; a text of three whitespace
  characters; and two syllables without whitespace.
\<close>

theorem tokenize_characters_witness:
  "tokenize [SP, 97, SP, SP, 98, 9, 99, LF] = [[97], [SP], [98], [SP], [99]]
   \<and> py_split [SP, 97, SP, SP, 98, 9, 99, LF] = [[97], [98], [99]]
   \<and> py_join [SP] [[97], [98], [99]] = [97, SP, 98, SP, 99]
   \<and> list_all isspace [SP, 9, 12288] \<and> tokenize [SP, 9, 12288] = []
   \<and> whitespace_tokenize [SP, 9, 12288] = []
   \<and> list_all (\<lambda>c. \<not> isspace c) [44032, 45208]
   \<and> tokenize [44032, 45208] = [[44032], [45208]]"
proof -
  have sp: "py_split [SP, 97, SP, SP, 98, 9, 99, LF] = [[97], [98], [99]]"
    by (simp add: py_split.simps isspace_def)
  have cr: "collapse_runs (py_strip [SP, 97, SP, SP, 98, 9, 99, LF]) = [97, SP, 98, SP, 99]"
    by (simp add: py_strip_def isspace_def)
  have ws: "\<forall>c\<in>set [SP, 9, 12288]. isspace c" by (simp add: isspace_def)
  have ns: "[44032, 45208] \<noteq> [] \<and> (\<forall>c\<in>set [44032, 45208]. \<not> isspace c)"
    by (simp add: isspace_def)
  note th = tokenize_characters [of "[SP, 97, SP, SP, 98, 9, 99, LF]"]
  from th have 1: "tokenize [SP, 97, SP, SP, 98, 9, 99, LF] = [[97], [SP], [98], [SP], [99]]"
    unfolding cr by simp
  from th have "py_join [SP] (py_split [SP, 97, SP, SP, 98, 9, 99, LF]) =
      concat (map (\<lambda>w. w @ [SP]) (butlast (py_split [SP, 97, SP, SP, 98, 9, 99, LF]))) @
      last (py_split [SP, 97, SP, SP, 98, 9, 99, LF])"
    unfolding sp by simp
  then have 4: "py_join [SP] [[97], [98], [99]] = [97, SP, 98, SP, 99]"
    unfolding sp by simp
  from tokenize_characters [of "[SP, 9, 12288]"] ws
  have 2: "tokenize [SP, 9, 12288] = [] \<and> whitespace_tokenize [SP, 9, 12288] = []" by blast
  from tokenize_characters [of "[44032, 45208]"] ns
  have 3: "tokenize [44032, 45208] = map (\<lambda>c. [c]) [44032, 45208]" by blast
  from 1 2 3 4 sp ws ns show ?thesis by (simp add: list_all_iff)
qed

section \<open>Segment ids\<close>

text \<open>
  C10. The segment ids of one sequence are \<open>len(A) + 2\<close> zeros; those of a pair are
  \<open>len(A) + 2\<close> zeros followed by \<open>len(B) + 1\<close> ones; they depend on the lengths of the
  sequences only.
\<close>

theorem token_type_ids_layout:
  "create_token_type_ids_from_sequences tk A None = replicate (length A + 2) 0
   \<and> create_token_type_ids_from_sequences tk A (Some B) =
       replicate (length A + 2) 0 @ replicate (length B + 1) 1
   \<and> (length A' = length A \<longrightarrow>
        create_token_type_ids_from_sequences tk' A' None =
        create_token_type_ids_from_sequences tk A None)
   \<and> (length A' = length A \<and> length B' = length B \<longrightarrow>
        create_token_type_ids_from_sequences tk' A' (Some B') =
        create_token_type_ids_from_sequences tk A (Some B))"
  by (simp add: create_token_type_ids_from_sequences_def)

text \<open>
  C10, witness: the example of the specification, and a pair.
\<close>

theorem token_type_ids_layout_witness:
  "create_token_type_ids_from_sequences example_tokenizer [Some 5, Some 7, Some 6] None =
     [0, 0, 0, 0, 0]
   \<and> create_token_type_ids_from_sequences example_tokenizer [Some 5, Some 7] (Some [Some 6]) =
     [0, 0, 0, 0, 1, 1]
   \<and> create_token_type_ids_from_sequences plain_tokenizer [None, None] (Some [Some 1]) =
     create_token_type_ids_from_sequences example_tokenizer [Some 5, Some 7] (Some [Some 6])"
proof -
  note th = token_type_ids_layout [of example_tokenizer "[Some 5, Some 7]" "[Some 6]"
      "[None, None]" plain_tokenizer "[Some 1]"]
  have l: "length [None, None :: py_id] = length [Some 5, Some (7::int)] \<and>
      length [Some (1::int)] = length [Some (6::int)]" by simp
  from token_type_ids_layout [of example_tokenizer "[Some 5, Some 7, Some 6]"]
  have 1: "create_token_type_ids_from_sequences example_tokenizer [Some 5, Some 7, Some 6] None =
     [0, 0, 0, 0, 0]" by (simp add: numeral_eq_Suc)
  from th have 2: "create_token_type_ids_from_sequences example_tokenizer [Some 5, Some 7]
      (Some [Some 6]) = [0, 0, 0, 0, 1, 1]" by (simp add: numeral_eq_Suc)
  from th l have 3: "create_token_type_ids_from_sequences plain_tokenizer [None, None]
      (Some [Some 1]) =
     create_token_type_ids_from_sequences example_tokenizer [Some 5, Some 7] (Some [Some 6])"
    by blast
  from 1 2 3 show ?thesis by blast
qed

end
